theory Spec2Isabelle
  imports Complex_Main "HOL-Library.Multiset" "HOL-Library.Word"
begin

section \<open>The bush of one origin (src/src/Bush.cpp)\<close>

text \<open>
  The development embeds the member functions of class \<open>Bush\<close>. Doubles are read as
  \<^typ>\<open>real\<close> (no NaN, no rounding), node ids and container indices as \<^typ>\<open>nat\<close>,
  the positions that Dijkstra reports as 32-bit unsigned words with \<open>-1\<close> for
  "unreachable", and a destination id as \<^typ>\<open>int\<close>, as \<open>pair<int,double>\<close> has it.

  A \<open>std::vector\<close> that the code indexes is a list. The nodes and the network edges are
  reached through pointers as well as through indices, so each is a store: a total
  function from ids to values, with the number of valid ids beside it. Reading the
  store is the pointer dereference; an index access compares the id to the count first.
\<close>

subsection \<open>Outcomes\<close>

text \<open>
  \<open>vector::at\<close> throws \<open>std::out_of_range\<close>. \<open>operator[]\<close> outside the range, and
  a null or dangling pointer that is dereferenced, are undefined behaviour: no check
  runs, and the model records that as an outcome of its own.
\<close>

datatype failure = OutOfRange | UndefinedBehaviour

type_synonym 'a result = "failure + 'a"

subsection \<open>Data model\<close>

record BushNode =
  minDist :: real
  maxDist :: real
  minPredecessor :: "nat option"

text \<open>
  A network edge is the pair of a \<open>ForwardGraphEdge\<close> (to-node, flow, cost function) and
  its \<open>BackwardGraphEdge\<close> (from-node, cached distance); \<open>graph.forward\<close> and
  \<open>graph.backward\<close> move between the two halves of one pair.
\<close>

record GraphEdge =
  fromNode :: nat
  toNode :: nat
  getFlow :: real
  distance :: real
  costFunction :: "real \<Rightarrow> real"

record BushEdge =
  underlyingEdge :: nat
  ownFlow :: real

record Origin =
  getOrigin :: nat
  dests :: "(int \<times> real) list"

record ABGraph =
  numVertices :: nat
  edgeStore :: "nat \<Rightarrow> GraphEdge"
  numEdges :: nat

text \<open>
  \<open>minPredecessor\<close> of node \<open>v\<close> is a pointer into the storage of \<open>bush[v]\<close>; the model
  keeps the slot number, \<open>None\<close> for a pointer that was never set.
\<close>

record Bush =
  origin :: Origin
  bush :: "BushEdge list list"
  sharedNodes :: "nat \<Rightarrow> BushNode"
  tempStore :: "(real \<times> nat) list"
  abGraph :: ABGraph
  topologicalOrdering :: "nat list"
  changes :: "(nat \<times> nat) list"

subsection \<open>Accessors that are not in Bush.cpp\<close>

text \<open>
  Modelled from the spec: \<open>BushEdge::fromNode\<close> and \<open>BushEdge::length\<close> are declared
  in BushEdge.hpp, which is not under src/. A bush edge is "a directed arc between two
  nodes, carrying a reference to the corresponding directed arc in the full network";
  its source and its cached length are those of the underlying edge, which is where
  \<open>sendInitialFlows\<close> writes the length (\<open>be->underlyingEdge()->setDistance\<close>).
\<close>

definition edgeFrom :: "ABGraph \<Rightarrow> BushEdge \<Rightarrow> nat" where
  "edgeFrom g e = fromNode (edgeStore g (underlyingEdge e))"

definition edgeLength :: "ABGraph \<Rightarrow> BushEdge \<Rightarrow> real" where
  "edgeLength g e = distance (edgeStore g (underlyingEdge e))"

text \<open>
  Modelled from the spec: \<open>BushNode::setDistance\<close> and \<open>BushNode::getDifference\<close> are
  declared in BushNode.hpp, which is not under src/. The origin is at "distance 0" (both
  distances), and the gap of a node is "(maxDist - minDist)".
\<close>

definition setDistance :: "real \<Rightarrow> BushNode \<Rightarrow> BushNode" where
  "setDistance d v = v\<lparr>minDist := d, maxDist := d\<rparr>"

definition getDifference :: "BushNode \<Rightarrow> real" where
  "getDifference v = maxDist v - minDist v"

subsection \<open>Tree maintenance\<close>

text \<open>
  Modelled from the spec: \<open>BushNode::updateInDistances\<close> is declared in BushNode.hpp,
  which is not under src/. "The minimum distance is the smallest (predecessor distance +
  edge length) over in-edges, recording which edge achieves it; the maximum distance is
  the largest such sum." The scan runs left to right and keeps the first edge that
  achieves the minimum. The spec does not say what a node without in-edges gets; the
  model leaves such a node as it is.
\<close>

fun scanInEdges ::
  "ABGraph \<Rightarrow> (nat \<Rightarrow> BushNode) \<Rightarrow> BushEdge list \<Rightarrow> nat \<Rightarrow> BushNode \<Rightarrow> BushNode" where
  "scanInEdges g nodes [] k v = v"
| "scanInEdges g nodes (e # es) k v =
     (let lo = minDist (nodes (edgeFrom g e)) + edgeLength g e;
          hi = maxDist (nodes (edgeFrom g e)) + edgeLength g e;
          v1 = (if lo < minDist v then v\<lparr>minDist := lo, minPredecessor := Some k\<rparr> else v);
          v2 = (if maxDist v1 < hi then v1\<lparr>maxDist := hi\<rparr> else v1)
      in scanInEdges g nodes es (Suc k) v2)"

definition updateInDistances ::
  "ABGraph \<Rightarrow> (nat \<Rightarrow> BushNode) \<Rightarrow> BushEdge list \<Rightarrow> BushNode \<Rightarrow> BushNode" where
  "updateInDistances g nodes inEdges v =
     (case inEdges of
        [] \<Rightarrow> v
      | e # es \<Rightarrow>
          scanInEdges g nodes es 1
            \<lparr>minDist = minDist (nodes (edgeFrom g e)) + edgeLength g e,
             maxDist = maxDist (nodes (edgeFrom g e)) + edgeLength g e,
             minPredecessor = Some 0\<rparr>)"

text \<open>
  Modelled from the spec: the three-argument \<open>Bush::updateEdges\<close> is defined in
  Bush.hpp, which is not under src/. "Any edge whose source's maximum distance is not
  strictly less than this node's resulting maximum distance is flagged as inconsistent
  and appended to the pending-changes list (keyed by the node)". The second component
  of an entry is the slot of the edge in the node's in-edge list: that is how
  \<open>applyBushEdgeChanges\<close> reads it.
\<close>

fun updateEdges3 ::
  "ABGraph \<Rightarrow> (nat \<Rightarrow> BushNode) \<Rightarrow> BushEdge list \<Rightarrow> real \<Rightarrow> nat \<Rightarrow> nat \<Rightarrow> (nat \<times> nat) list" where
  "updateEdges3 g nodes [] maxD nid k = []"
| "updateEdges3 g nodes (e # es) maxD nid k =
     (if maxDist (nodes (edgeFrom g e)) < maxD then [] else [(nid, k)])
       @ updateEdges3 g nodes es maxD nid (Suc k)"

text \<open>
  \<open>buildTrees\<close>, lines 158-173. The loop starts at the second entry of the ordering.
  \<open>sharedNodes[id]\<close> and \<open>bush[id]\<close> are unchecked.
\<close>

definition buildTrees_body :: "nat \<Rightarrow> Bush \<Rightarrow> Bush" where
  "buildTrees_body nid s =
     (let inEdges = bush s ! nid;
          v = updateInDistances (abGraph s) (sharedNodes s) inEdges (sharedNodes s nid);
          nodes = (sharedNodes s)(nid := v)
      in s\<lparr>sharedNodes := nodes,
           changes := changes s @ updateEdges3 (abGraph s) nodes inEdges (maxDist v) nid 0\<rparr>)"

fun buildTrees_loop :: "nat list \<Rightarrow> Bush \<Rightarrow> Bush result" where
  "buildTrees_loop [] s = Inr s"
| "buildTrees_loop (nid # rest) s =
     (if nid < numVertices (abGraph s) \<and> nid < length (bush s)
      then buildTrees_loop rest (buildTrees_body nid s)
      else Inl UndefinedBehaviour)"

definition buildTrees :: "Bush \<Rightarrow> Bush result" where
  "buildTrees s =
     (let rootId = getOrigin (origin s) in
      if rootId < numVertices (abGraph s) then
        buildTrees_loop (drop 1 (topologicalOrdering s))
          (s\<lparr>sharedNodes := (sharedNodes s)(rootId := setDistance 0 (sharedNodes s rootId)),
             changes := []\<rparr>)
      else Inl UndefinedBehaviour)"

subsection \<open>Restructuring: the new ordering\<close>

text \<open>
  Modelled from the spec: \<open>Bush::pairComparator\<close> is declared in Bush.hpp, which is not
  under src/. The spec has "a stable sort by distance" of the "(distance,index) pairs":
  the comparator orders two pairs by their distance and does not look at the index.
\<close>

definition pairComparator :: "real \<times> nat \<Rightarrow> real \<times> nat \<Rightarrow> bool" where
  "pairComparator a b \<longleftrightarrow> fst a < fst b"

text \<open>
  \<open>std::stable_sort\<close> with a comparator. A stable sort has one result, the one in which
  elements that the comparator does not separate keep their order; the model computes it
  by insertion.
\<close>

fun stable_insert :: "('a \<Rightarrow> 'a \<Rightarrow> bool) \<Rightarrow> 'a \<Rightarrow> 'a list \<Rightarrow> 'a list" where
  "stable_insert before x [] = [x]"
| "stable_insert before x (y # ys) =
     (if before y x then y # stable_insert before x ys else x # y # ys)"

definition stable_sort :: "('a \<Rightarrow> 'a \<Rightarrow> bool) \<Rightarrow> 'a list \<Rightarrow> 'a list" where
  "stable_sort before xs = foldr (stable_insert before) xs []"

text \<open>
  \<open>topologicalSort\<close>, lines 220-261. The first \<open>topologicalOrdering.size()\<close> slots of
  the scratch buffer are filled with (max distance, id) and sorted, and the ids are
  written back. A buffer that is too short, or an id outside the node array, is an
  unchecked access.
\<close>

definition topologicalSort :: "Bush \<Rightarrow> Bush result" where
  "topologicalSort s =
     (let n = length (topologicalOrdering s) in
      if n \<le> length (tempStore s) \<and> (\<forall>i \<in> set (topologicalOrdering s). i < numVertices (abGraph s))
      then
        (let filled = map (\<lambda>i. (maxDist (sharedNodes s i), i)) (topologicalOrdering s);
             sorted = stable_sort pairComparator filled
         in Inr (s\<lparr>tempStore := sorted @ drop n (tempStore s),
                   topologicalOrdering := map snd sorted\<rparr>))
      else Inl UndefinedBehaviour)"

subsection \<open>Restructuring: turning the flagged edges around\<close>

text \<open>
  Modelled from the spec: \<open>BushEdge::swapDirection\<close> is declared in BushEdge.hpp, which
  is not under src/. A reversed edge has "from/to swapped on both the bush edge and its
  underlying network edge". The bush edge takes its direction from the underlying edge,
  so the swap is made there.
\<close>

definition swapEnds :: "GraphEdge \<Rightarrow> GraphEdge" where
  "swapEnds ge = ge\<lparr>fromNode := toNode ge, toNode := fromNode ge\<rparr>"

definition swapDirection :: "ABGraph \<Rightarrow> BushEdge \<Rightarrow> ABGraph" where
  "swapDirection g e =
     g\<lparr>edgeStore := (edgeStore g)(underlyingEdge e := swapEnds (edgeStore g (underlyingEdge e)))\<rparr>"

text \<open>
  The first inner loop of \<open>applyBushEdgeChanges\<close>, lines 202-204: the flagged slots
  are taken last to first, and each is swapped with the slot \<open>k\<close>, which starts at the
  last slot and moves down. \<open>k\<close> is an \<open>int\<close>; both subscripts are unchecked.
\<close>

fun swapToTail :: "nat list \<Rightarrow> int \<Rightarrow> BushEdge list \<Rightarrow> BushEdge list result" where
  "swapToTail [] k inEdges = Inr inEdges"
| "swapToTail (i # is) k inEdges =
     (if 0 \<le> k \<and> nat k < length inEdges \<and> i < length inEdges then
        swapToTail is (k - 1) (inEdges[nat k := inEdges ! i, i := inEdges ! nat k])
      else Inl UndefinedBehaviour)"

text \<open>
  The second inner loop, lines 207-213, over the edges that now sit in the tail: each is
  turned around and pushed onto the in-edges of its former source. \<open>bush[fromID]\<close> is
  unchecked. An edge whose source is the node itself would be pushed onto the vector
  that the loop is reading, through a reference into that vector; a bush holds no such
  edge, and the model gives that case no defined result.
\<close>

fun reverseTail :: "nat \<Rightarrow> BushEdge list \<Rightarrow> Bush \<Rightarrow> Bush result" where
  "reverseTail node [] s = Inr s"
| "reverseTail node (edge # rest) s =
     (let fromID = edgeFrom (abGraph s) edge in
      if fromID < length (bush s) \<and> fromID \<noteq> node then
        reverseTail node rest
          (s\<lparr>abGraph := swapDirection (abGraph s) edge,
             bush := (bush s)[fromID := bush s ! fromID @ [edge]]\<rparr>)
      else Inl UndefinedBehaviour)"

text \<open>
  Modelled from the spec: class \<open>EdgeVector\<close> is declared in EdgeVector.hpp, which is
  not under src/. \<open>length\<close>, the subscript and \<open>push_back\<close> are those of a vector.
  \<open>resize\<close> is called with the number of flagged edges, and the spec has the flagged
  edges removed "by swapping into the tail, then truncating": \<open>resize n\<close> drops the
  last \<open>n\<close> entries, which leaves the \<open>l\<close> entries that the code calls the new length.
\<close>

definition resize :: "nat \<Rightarrow> BushEdge list \<Rightarrow> BushEdge list" where
  "resize n inEdges = take (length inEdges - n) inEdges"

text \<open>
  \<open>applyBushEdgeChanges\<close>, lines 186-218. The entries of one node are taken together
  (\<open>j\<close> runs to the first entry of another node), so \<open>j - i\<close> is the length of \<open>grp\<close>.
\<close>

function applyBushEdgeChanges_loop :: "(nat \<times> nat) list \<Rightarrow> Bush \<Rightarrow> Bush result" where
  "applyBushEdgeChanges_loop [] s = Inr s"
| "applyBushEdgeChanges_loop ((node, idx) # cs) s =
     (let grp = idx # map snd (takeWhile (\<lambda>c. fst c = node) cs);
          rest = dropWhile (\<lambda>c. fst c = node) cs
      in
      if node < length (bush s) then
        (let inEdges = bush s ! node;
             l = int (length inEdges) - int (length grp)
         in
         case swapToTail (rev grp) (int (length inEdges) - 1) inEdges of
           Inl e \<Rightarrow> Inl e
         | Inr moved \<Rightarrow>
             if l < 0 then Inl UndefinedBehaviour
             else
               (case reverseTail node (drop (nat l) moved) (s\<lparr>bush := (bush s)[node := moved]\<rparr>) of
                  Inl e \<Rightarrow> Inl e
                | Inr s1 \<Rightarrow>
                    applyBushEdgeChanges_loop rest
                      (s1\<lparr>bush := (bush s1)[node := resize (length grp) (bush s1 ! node)]\<rparr>)))
      else Inl UndefinedBehaviour)"
  by pat_completeness auto
termination
  by (relation "measure (\<lambda>(cs, s). length cs)") (auto simp: length_dropWhile_le less_Suc_eq_le)

definition applyBushEdgeChanges :: "Bush \<Rightarrow> Bush result" where
  "applyBushEdgeChanges s = applyBushEdgeChanges_loop (changes s) s"

text \<open>\<open>updateEdges()\<close>, lines 175-184.\<close>

definition updateEdges :: "Bush \<Rightarrow> (bool \<times> Bush) result" where
  "updateEdges s =
     (if changes s \<noteq> [] then
        (case applyBushEdgeChanges s of
           Inl e \<Rightarrow> Inl e
         | Inr s1 \<Rightarrow>
             (case topologicalSort s1 of
                Inl e \<Rightarrow> Inl e
              | Inr s2 \<Rightarrow> Inr (True, s2\<lparr>changes := []\<rparr>)))
      else Inr (False, s))"

subsection \<open>Equilibration\<close>

text \<open>
  \<open>BushNode::equilibriate\<close> is declared in BushNode.hpp, which is not under src/, and the
  spec leaves the amount it shifts to "the node's local flow-adjustment step". It is a
  parameter \<open>eq\<close> of the model: \<open>eq d s\<close> is the state after \<open>sharedNodes[d].equilibriate(graph)\<close>.

  One scan of the destination list, lines 144-150. \<open>sharedNodes[i->first]\<close> is unchecked.
\<close>

fun scanDests ::
  "(nat \<Rightarrow> Bush \<Rightarrow> Bush) \<Rightarrow> real \<Rightarrow> (int \<times> real) list \<Rightarrow> bool \<Rightarrow> Bush \<Rightarrow> (bool \<times> Bush) result" where
  "scanDests eq accuracy [] thisTime s = Inr (thisTime, s)"
| "scanDests eq accuracy ((d, demand) # ds) thisTime s =
     (if 0 \<le> d \<and> nat d < numVertices (abGraph s) then
        (if accuracy < getDifference (sharedNodes s (nat d))
         then scanDests eq accuracy ds True (eq (nat d) s)
         else scanDests eq accuracy ds thisTime s)
      else Inl UndefinedBehaviour)"

text \<open>
  \<open>equilibriateFlows\<close>, lines 138-156. The \<open>while (true)\<close> loop need not end, so the
  model is a partial function: \<open>None\<close> is a run that does not return.
\<close>

partial_function (option) equilibriateFlows_loop ::
  "(nat \<Rightarrow> Bush \<Rightarrow> Bush) \<Rightarrow> real \<Rightarrow> bool \<Rightarrow> Bush \<Rightarrow> (bool \<times> Bush) result option" where
  "equilibriateFlows_loop eq accuracy flowsChanged s =
     (case scanDests eq accuracy (dests (origin s)) False s of
        Inl e \<Rightarrow> Some (Inl e)
      | Inr (thisTime, s1) \<Rightarrow>
          (if \<not> thisTime then Some (Inr (flowsChanged \<or> thisTime, s1))
           else
             (case buildTrees s1 of
                Inl e \<Rightarrow> Some (Inl e)
              | Inr s2 \<Rightarrow> equilibriateFlows_loop eq accuracy (flowsChanged \<or> thisTime) s2)))"

definition equilibriateFlows ::
  "(nat \<Rightarrow> Bush \<Rightarrow> Bush) \<Rightarrow> real \<Rightarrow> Bush \<Rightarrow> (bool \<times> Bush) result option" where
  "equilibriateFlows eq accuracy s =
     (case buildTrees s of
        Inl e \<Rightarrow> Some (Inl e)
      | Inr s1 \<Rightarrow> equilibriateFlows_loop eq accuracy False s1)"

text \<open>\<open>fix\<close>, lines 129-136: a do-while loop around the two passes.\<close>

partial_function (option) fix_loop ::
  "(nat \<Rightarrow> Bush \<Rightarrow> Bush) \<Rightarrow> real \<Rightarrow> bool \<Rightarrow> Bush \<Rightarrow> (bool \<times> Bush) result option" where
  "fix_loop eq accuracy localFlowChanged s =
     (case equilibriateFlows eq accuracy s of
        None \<Rightarrow> None
      | Some (Inl e) \<Rightarrow> Some (Inl e)
      | Some (Inr (changed, s1)) \<Rightarrow>
          (case updateEdges s1 of
             Inl e \<Rightarrow> Some (Inl e)
           | Inr (again, s2) \<Rightarrow>
               if again then fix_loop eq accuracy (changed \<or> localFlowChanged) s2
               else Some (Inr (changed \<or> localFlowChanged, s2))))"

definition fix_bush ::
  "(nat \<Rightarrow> Bush \<Rightarrow> Bush) \<Rightarrow> real \<Rightarrow> Bush \<Rightarrow> (bool \<times> Bush) result option" where
  "fix_bush eq accuracy s = fix_loop eq accuracy False s"

subsection \<open>Queries\<close>

text \<open>
  \<open>giveCount\<close>, lines 263-276. The inner loop runs \<open>j\<close> over the entries that follow
  \<open>i\<close> while their max distance equals that of \<open>i\<close>; it returns how many it passed and
  what is left. \<open>sharedNodes.at\<close> is checked. The count is at most the number of
  entries of the ordering, so the conversion of the \<open>unsigned\<close> count to the \<open>int\<close>
  result is the identity.
\<close>

fun sameDistRun :: "Bush \<Rightarrow> real \<Rightarrow> nat list \<Rightarrow> (nat \<times> nat list) result" where
  "sameDistRun s dist1 [] = Inr (0, [])"
| "sameDistRun s dist1 (j # js) =
     (if j < numVertices (abGraph s) then
        (if dist1 = maxDist (sharedNodes s j) then
           (case sameDistRun s dist1 js of
              Inl e \<Rightarrow> Inl e
            | Inr (n, rest) \<Rightarrow> Inr (Suc n, rest))
         else Inr (0, j # js))
      else Inl OutOfRange)"

lemma sameDistRun_length:
  "sameDistRun s dist1 js = Inr (n, rest) \<Longrightarrow> length rest \<le> length js"
proof (induction js arbitrary: n rest)
  case Nil
  then show ?case by simp
next
  case (Cons j js)
  then show ?case
    by (fastforce split: if_splits sum.splits)
qed

function giveCount_loop :: "Bush \<Rightarrow> nat list \<Rightarrow> nat \<Rightarrow> nat result" where
  "giveCount_loop s [] cnt = Inr cnt"
| "giveCount_loop s (i # is) cnt =
     (if i < numVertices (abGraph s) then
        (case sameDistRun s (maxDist (sharedNodes s i)) is of
           Inl e \<Rightarrow> Inl e
         | Inr (n, rest) \<Rightarrow> giveCount_loop s rest (cnt + n))
      else Inl OutOfRange)"
  by pat_completeness auto
termination
  by (relation "measure (\<lambda>(s, is, cnt). length is)")
     (auto dest: sameDistRun_length simp: less_Suc_eq_le)

definition giveCount :: "Bush \<Rightarrow> (int \<times> Bush) result" where
  "giveCount s =
     (case buildTrees s of
        Inl e \<Rightarrow> Inl e
      | Inr s1 \<Rightarrow>
          (case giveCount_loop s1 (topologicalOrdering s1) 0 of
             Inl e \<Rightarrow> Inl e
           | Inr cnt \<Rightarrow> Inr (int cnt, s1)))"

text \<open>\<open>maxDifference\<close>, lines 322-329. \<open>sharedNodes[i->first]\<close> is unchecked.\<close>

fun maxDifference_loop :: "(int \<times> real) list \<Rightarrow> Bush \<Rightarrow> real \<Rightarrow> real result" where
  "maxDifference_loop [] s ret = Inr ret"
| "maxDifference_loop ((d, demand) # ds) s ret =
     (if 0 \<le> d \<and> nat d < numVertices (abGraph s) then
        maxDifference_loop ds s (max ret (getDifference (sharedNodes s (nat d))))
      else Inl UndefinedBehaviour)"

definition maxDifference :: "Bush \<Rightarrow> (real \<times> Bush) result" where
  "maxDifference s =
     (case buildTrees s of
        Inl e \<Rightarrow> Inl e
      | Inr s1 \<Rightarrow>
          (case maxDifference_loop (dests (origin s1)) s1 0 of
             Inl e \<Rightarrow> Inl e
           | Inr ret \<Rightarrow> Inr (ret, s1)))"

text \<open>
  \<open>allOrNothingCost\<close>, lines 290-317. The walk from a destination to the root follows
  \<open>getMinPredecessor\<close>, a pointer that the model keeps as a slot of the node's in-edge
  list: a pointer never set, or a slot that is not there, is a dereference with no
  defined result. The walk need not reach the root, so it is a partial function.
\<close>

partial_function (option) walkCost ::
  "Bush \<Rightarrow> real \<Rightarrow> nat \<Rightarrow> nat \<Rightarrow> real \<Rightarrow> real result option" where
  "walkCost s demand rootId node cost =
     (if node = rootId then Some (Inr cost)
      else
        (case minPredecessor (sharedNodes s node) of
           None \<Rightarrow> Some (Inl UndefinedBehaviour)
         | Some k \<Rightarrow>
             if node < length (bush s) \<and> k < length (bush s ! node) then
               (let be = bush s ! node ! k in
                walkCost s demand rootId (edgeFrom (abGraph s) be)
                  (cost + demand * edgeLength (abGraph s) be))
             else Some (Inl UndefinedBehaviour)))"

fun allOrNothingCost_dests ::
  "(int \<times> real) list \<Rightarrow> Bush \<Rightarrow> nat \<Rightarrow> real \<Rightarrow> real result option" where
  "allOrNothingCost_dests [] s rootId cost = Some (Inr cost)"
| "allOrNothingCost_dests ((d, demand) # ds) s rootId cost =
     (if 0 \<le> d \<and> nat d < numVertices (abGraph s) then
        (case walkCost s demand rootId (nat d) cost of
           None \<Rightarrow> None
         | Some (Inl e) \<Rightarrow> Some (Inl e)
         | Some (Inr cost1) \<Rightarrow> allOrNothingCost_dests ds s rootId cost1)
      else Some (Inl OutOfRange))"

definition allOrNothingCost :: "Bush \<Rightarrow> (real \<times> Bush) result option" where
  "allOrNothingCost s =
     (case buildTrees s of
        Inl e \<Rightarrow> Some (Inl e)
      | Inr s1 \<Rightarrow>
          if getOrigin (origin s1) < numVertices (abGraph s1) then
            (case allOrNothingCost_dests (dests (origin s1)) s1 (getOrigin (origin s1)) 0 of
               None \<Rightarrow> None
             | Some (Inl e) \<Rightarrow> Some (Inl e)
             | Some (Inr cost) \<Rightarrow> Some (Inr (cost, s1)))
          else Some (Inl OutOfRange))"

subsection \<open>Construction\<close>

text \<open>
  \<open>setUpGraph\<close>, lines 45-86. \<open>ABGraph::dijkstra\<close> is declared in ABGraph.hpp, which
  is not under src/: it is a parameter of the model, a function from the origin and the
  two vectors it is handed to the two vectors as it leaves them. The position \<open>-1\<close>
  of the \<open>unsigned\<close> distance map marks a node that Dijkstra did not reach.

  The first loop writes a line to \<open>std::cout\<close> for every destination at position
  \<open>-1\<close>; the model returns the (origin, destination) pairs of those lines.
  \<open>distanceMap.at\<close> is checked.
\<close>

fun unreachableDests :: "32 word list \<Rightarrow> nat \<Rightarrow> (int \<times> real) list \<Rightarrow> (nat \<times> int) list result" where
  "unreachableDests distanceMap rootId [] = Inr []"
| "unreachableDests distanceMap rootId ((d, demand) # ds) =
     (if 0 \<le> d \<and> nat d < length distanceMap then
        (case unreachableDests distanceMap rootId ds of
           Inl e \<Rightarrow> Inl e
         | Inr out \<Rightarrow> Inr ((if distanceMap ! nat d = - 1 then [(rootId, d)] else []) @ out))
      else Inl OutOfRange)"

text \<open>
  Modelled from the spec: the constructor of \<open>BushEdge\<close> is declared in BushEdge.hpp,
  which is not under src/. The new edge refers to the network edge and carries no flow
  yet ("initial flow on each edge of that path must equal 10.0" once the demand 10.0 has
  been added).
\<close>

definition newBushEdge :: "nat \<Rightarrow> BushEdge" where
  "newBushEdge e = \<lparr>underlyingEdge = e, ownFlow = 0\<rparr>"

text \<open>The second loop, over all network edges; \<open>distanceMap.at\<close> and \<open>bush.at\<close> are checked.\<close>

fun setUpGraph_edges ::
  "32 word list \<Rightarrow> ABGraph \<Rightarrow> nat list \<Rightarrow> BushEdge list list \<Rightarrow> BushEdge list list result" where
  "setUpGraph_edges distanceMap g [] b = Inr b"
| "setUpGraph_edges distanceMap g (e # es) b =
     (let toId = toNode (edgeStore g e);
          fromId = fromNode (edgeStore g e)
      in
      if toId < length distanceMap \<and> fromId < length distanceMap then
        (let toPosition = distanceMap ! toId;
             fromPosition = distanceMap ! fromId
         in
         if toPosition = - 1 \<or> fromPosition = - 1 then setUpGraph_edges distanceMap g es b
         else if fromPosition < toPosition then
           (if toId < length b
            then setUpGraph_edges distanceMap g es (b[toId := b ! toId @ [newBushEdge e]])
            else Inl OutOfRange)
         else setUpGraph_edges distanceMap g es b)
      else Inl OutOfRange)"

definition setUpGraph ::
  "(nat \<Rightarrow> 32 word list \<Rightarrow> nat list \<Rightarrow> 32 word list \<times> nat list) \<Rightarrow> Bush
     \<Rightarrow> ((nat \<times> int) list \<times> Bush) result" where
  "setUpGraph dijkstra s =
     (let rootId = getOrigin (origin s);
          (distanceMap, ordering) =
             dijkstra rootId (replicate (numVertices (abGraph s)) (- 1)) (topologicalOrdering s)
      in
      case unreachableDests distanceMap rootId (dests (origin s)) of
        Inl e \<Rightarrow> Inl e
      | Inr out \<Rightarrow>
          (case setUpGraph_edges distanceMap (abGraph s) [0..<numEdges (abGraph s)] (bush s) of
             Inl e \<Rightarrow> Inl e
           | Inr b \<Rightarrow> Inr (out, s\<lparr>bush := b, topologicalOrdering := ordering\<rparr>)))"

text \<open>
  \<open>sendInitialFlows\<close>, lines 88-104: the walk towards the root adds the demand to the
  bush edge and to the network edge and sets the cached length from the cost function.
\<close>

partial_function (option) flowBack ::
  "real \<Rightarrow> nat \<Rightarrow> nat \<Rightarrow> Bush \<Rightarrow> Bush result option" where
  "flowBack demand rootId node s =
     (if node = rootId then Some (Inr s)
      else
        (case minPredecessor (sharedNodes s node) of
           None \<Rightarrow> Some (Inl UndefinedBehaviour)
         | Some k \<Rightarrow>
             if node < length (bush s) \<and> k < length (bush s ! node) then
               (let be = bush s ! node ! k;
                    ge = edgeStore (abGraph s) (underlyingEdge be);
                    fge = ge\<lparr>getFlow := getFlow ge + demand\<rparr>;
                    fge1 = fge\<lparr>distance := costFunction fge (getFlow fge)\<rparr>
                in
                flowBack demand rootId (fromNode fge1)
                  (s\<lparr>bush := (bush s)[node := (bush s ! node)[k := be\<lparr>ownFlow := ownFlow be + demand\<rparr>]],
                     abGraph := (abGraph s)\<lparr>edgeStore := (edgeStore (abGraph s))(underlyingEdge be := fge1)\<rparr>\<rparr>))
             else Some (Inl UndefinedBehaviour)))"

fun sendInitialFlows_dests :: "(int \<times> real) list \<Rightarrow> nat \<Rightarrow> Bush \<Rightarrow> Bush result option" where
  "sendInitialFlows_dests [] rootId s = Some (Inr s)"
| "sendInitialFlows_dests ((d, demand) # ds) rootId s =
     (if 0 \<le> d \<and> nat d < numVertices (abGraph s) then
        (case flowBack demand rootId (nat d) s of
           None \<Rightarrow> None
         | Some (Inl e) \<Rightarrow> Some (Inl e)
         | Some (Inr s1) \<Rightarrow> sendInitialFlows_dests ds rootId s1)
      else Some (Inl OutOfRange))"

definition sendInitialFlows :: "Bush \<Rightarrow> Bush result option" where
  "sendInitialFlows s =
     (if getOrigin (origin s) < numVertices (abGraph s)
      then sendInitialFlows_dests (dests (origin s)) (getOrigin (origin s)) s
      else Some (Inl OutOfRange))"

text \<open>
  The constructor, lines 30-43. \<open>bush(g.numVertices())\<close> is one empty in-edge list per
  node; the nodes are those of the network, in the state the caller hands them over.
\<close>

definition construct ::
  "(nat \<Rightarrow> 32 word list \<Rightarrow> nat list \<Rightarrow> 32 word list \<times> nat list) \<Rightarrow> Origin \<Rightarrow> ABGraph
     \<Rightarrow> (nat \<Rightarrow> BushNode) \<Rightarrow> (real \<times> nat) list \<Rightarrow> ((nat \<times> int) list \<times> Bush) result option" where
  "construct dijkstra ori g nodes scratch =
     (case setUpGraph dijkstra
             \<lparr>origin = ori, bush = replicate (numVertices g) [], sharedNodes = nodes,
              tempStore = scratch, abGraph = g, topologicalOrdering = [], changes = []\<rparr> of
        Inl e \<Rightarrow> Some (Inl e)
      | Inr (out, s1) \<Rightarrow>
          (case buildTrees s1 of
             Inl e \<Rightarrow> Some (Inl e)
           | Inr s2 \<Rightarrow>
               (case sendInitialFlows s2 of
                  None \<Rightarrow> None
                | Some (Inl e) \<Rightarrow> Some (Inl e)
                | Some (Inr s3) \<Rightarrow> Some (Inr (out, s3\<lparr>changes := []\<rparr>)))))"

section \<open>Example bushes\<close>

text \<open>Small networks on which the theorems below are run.\<close>

definition freshNode :: BushNode where
  "freshNode = \<lparr>minDist = 0, maxDist = 0, minPredecessor = None\<rparr>"

definition constEdge :: "nat \<Rightarrow> nat \<Rightarrow> real \<Rightarrow> GraphEdge" where
  "constEdge a b len =
     \<lparr>fromNode = a, toNode = b, getFlow = 0, distance = len, costFunction = (\<lambda>x. len)\<rparr>"

definition network :: "nat \<Rightarrow> GraphEdge list \<Rightarrow> ABGraph" where
  "network n es =
     \<lparr>numVertices = n,
      edgeStore = (\<lambda>i. if i < length es then es ! i else constEdge 0 0 0),
      numEdges = length es\<rparr>"

text \<open>Three nodes without edges; node 1 is farther from the origin than node 2.\<close>

definition sortExample :: Bush where
  "sortExample =
     \<lparr>origin = \<lparr>getOrigin = 0, dests = []\<rparr>,
      bush = [[], [], []],
      sharedNodes = (\<lambda>i. freshNode)(1 := \<lparr>minDist = 5, maxDist = 5, minPredecessor = None\<rparr>,
                                      2 := \<lparr>minDist = 3, maxDist = 3, minPredecessor = None\<rparr>),
      tempStore = [(0, 0), (0, 0), (0, 0)],
      abGraph = network 3 [],
      topologicalOrdering = [0, 1, 2],
      changes = []\<rparr>"

text \<open>
  The spec scenario "origin node 0, destinations {(3, 10.0)}, a unique path 0 -> 1 -> 3",
  with lengths 2 and 3, before and after a tree build.
\<close>

definition lineExample :: Bush where
  "lineExample =
     \<lparr>origin = \<lparr>getOrigin = 0, dests = [(3, 10)]\<rparr>,
      bush = [[], [newBushEdge 0], [], [newBushEdge 1]],
      sharedNodes = (\<lambda>i. freshNode),
      tempStore = [(0, 0), (0, 0), (0, 0), (0, 0)],
      abGraph = network 4 [constEdge 0 1 2, constEdge 1 3 3],
      topologicalOrdering = [0, 1, 3],
      changes = []\<rparr>"

definition lineExample_built :: Bush where
  "lineExample_built =
     lineExample\<lparr>sharedNodes := (\<lambda>i. freshNode)
       (1 := \<lparr>minDist = 2, maxDist = 2, minPredecessor = Some 0\<rparr>,
        3 := \<lparr>minDist = 5, maxDist = 5, minPredecessor = Some 0\<rparr>)\<rparr>"

text \<open>Three edges of length 1 from the origin, before and after a tree build.\<close>

definition starExample :: Bush where
  "starExample =
     \<lparr>origin = \<lparr>getOrigin = 0, dests = []\<rparr>,
      bush = [[], [newBushEdge 0], [newBushEdge 1], [newBushEdge 2]],
      sharedNodes = (\<lambda>i. freshNode),
      tempStore = [(0, 0), (0, 0), (0, 0), (0, 0)],
      abGraph = network 4 [constEdge 0 1 1, constEdge 0 2 1, constEdge 0 3 1],
      topologicalOrdering = [0, 1, 2, 3],
      changes = []\<rparr>"

definition starExample_built :: Bush where
  "starExample_built =
     starExample\<lparr>sharedNodes := (\<lambda>i. freshNode)
       (1 := \<lparr>minDist = 1, maxDist = 1, minPredecessor = Some 0\<rparr>,
        2 := \<lparr>minDist = 1, maxDist = 1, minPredecessor = Some 0\<rparr>,
        3 := \<lparr>minDist = 1, maxDist = 1, minPredecessor = Some 0\<rparr>)\<rparr>"

text \<open>
  Six nodes; Dijkstra from node 0 reaches 0, 1 and 3 in that order, and leaves 2, 4 and 5
  at position \<open>-1\<close>. The function below is what \<open>graph.dijkstra\<close> answers on this network.
\<close>

definition sixNodes :: ABGraph where
  "sixNodes = network 6 [constEdge 0 1 1, constEdge 1 3 1, constEdge 3 1 1, constEdge 4 5 1, constEdge 0 3 5]"

definition sixNodes_dijkstra :: "nat \<Rightarrow> 32 word list \<Rightarrow> nat list \<Rightarrow> 32 word list \<times> nat list" where
  "sixNodes_dijkstra rootId distanceMap topo = ([0, 1, - 1, 2, - 1, - 1], [0, 1, 3])"

definition sixNodes_start :: "(int \<times> real) list \<Rightarrow> Bush" where
  "sixNodes_start ds =
     \<lparr>origin = \<lparr>getOrigin = 0, dests = ds\<rparr>, bush = replicate 6 [],
      sharedNodes = (\<lambda>i. freshNode), tempStore = replicate 6 (0, 0), abGraph = sixNodes,
      topologicalOrdering = [], changes = []\<rparr>"



text \<open>
  The spec scenario of the diamond (0 -> 1 -> 3 and 0 -> 2 -> 3, demand to node 3), with an
  edge of length 0 from the origin to a fifth node. The equilibration step of the
  example makes the long path as short as the short one.
\<close>

definition diamondExample :: Bush where
  "diamondExample =
     \<lparr>origin = \<lparr>getOrigin = 0, dests = [(3, 10)]\<rparr>,
      bush = [[], [newBushEdge 0], [newBushEdge 1], [newBushEdge 2, newBushEdge 3], [newBushEdge 4]],
      sharedNodes = (\<lambda>i. freshNode),
      tempStore = [(0, 0), (0, 0), (0, 0), (0, 0), (0, 0)],
      abGraph = network 5 [constEdge 0 1 1, constEdge 0 2 2, constEdge 1 3 1, constEdge 2 3 2,
                           constEdge 0 4 0],
      topologicalOrdering = [0, 1, 2, 3, 4],
      changes = []\<rparr>"

definition shortenExample :: "nat \<Rightarrow> Bush \<Rightarrow> Bush" where
  "shortenExample d s =
     s\<lparr>abGraph := (abGraph s)\<lparr>edgeStore := (edgeStore (abGraph s))
          (1 := (edgeStore (abGraph s) 1)\<lparr>distance := 1\<rparr>,
           3 := (edgeStore (abGraph s) 3)\<lparr>distance := 1\<rparr>)\<rparr>\<rparr>"

text \<open>One edge of length 0 from the origin, before and after a tree build.\<close>

definition tieExample :: Bush where
  "tieExample =
     \<lparr>origin = \<lparr>getOrigin = 0, dests = []\<rparr>,
      bush = [[], [newBushEdge 0]],
      sharedNodes = (\<lambda>i. freshNode),
      tempStore = [(0, 0), (0, 0)],
      abGraph = network 2 [constEdge 0 1 0],
      topologicalOrdering = [0, 1],
      changes = []\<rparr>"

definition tieExample_built :: Bush where
  "tieExample_built =
     tieExample\<lparr>sharedNodes := (\<lambda>i. freshNode)(1 := \<lparr>minDist = 0, maxDist = 0, minPredecessor = Some 0\<rparr>),
                changes := [(1, 0)]\<rparr>"

text \<open>The ordering visits node 1 before node 2 although the only in-edge of 1 comes from 2.\<close>

definition misorderedExample :: Bush where
  "misorderedExample =
     \<lparr>origin = \<lparr>getOrigin = 0, dests = []\<rparr>,
      bush = [[], [newBushEdge 1], [newBushEdge 0]],
      sharedNodes = (\<lambda>i. freshNode),
      tempStore = [(0, 0), (0, 0), (0, 0)],
      abGraph = network 3 [constEdge 0 2 1, constEdge 2 1 1],
      topologicalOrdering = [0, 1, 2],
      changes = []\<rparr>"

text \<open>The bush of the edge of length 0 after \<open>updateEdges\<close>.\<close>

definition tieExample_turned :: Bush where
  "tieExample_turned =
     tieExample_built\<lparr>bush := [[newBushEdge 0], []],
        abGraph := (abGraph tieExample)\<lparr>edgeStore :=
           (edgeStore (abGraph tieExample))(0 := constEdge 1 0 0)\<rparr>,
        tempStore := [(0, 0), (0, 1)],
        changes := []\<rparr>"

text \<open>
  Three nodes; the edge from node 1 to node 2 is flagged, since node 1 is farther from the
  origin than node 2. Before and after \<open>updateEdges\<close>.
\<close>

definition turnExample :: Bush where
  "turnExample =
     \<lparr>origin = \<lparr>getOrigin = 0, dests = []\<rparr>,
      bush = [[], [newBushEdge 0], [newBushEdge 1, newBushEdge 2]],
      sharedNodes = (\<lambda>i. freshNode)(1 := \<lparr>minDist = 5, maxDist = 5, minPredecessor = Some 0\<rparr>,
                                      2 := \<lparr>minDist = 3, maxDist = 3, minPredecessor = Some 1\<rparr>),
      tempStore = [(0, 0), (0, 0), (0, 0)],
      abGraph = network 3 [constEdge 0 1 5, constEdge 1 2 1, constEdge 0 2 3],
      topologicalOrdering = [0, 1, 2],
      changes = [(2, 0)]\<rparr>"

definition turnExample_turned :: Bush where
  "turnExample_turned =
     turnExample\<lparr>bush := [[], [newBushEdge 0, newBushEdge 1], [newBushEdge 2]],
        abGraph := (abGraph turnExample)\<lparr>edgeStore :=
           (edgeStore (abGraph turnExample))(1 := constEdge 2 1 1)\<rparr>,
        tempStore := [(0, 0), (3, 2), (5, 1)],
        topologicalOrdering := [0, 2, 1],
        changes := []\<rparr>"

section \<open>Properties stated by the theorems\<close>

text \<open>
  What a tree build leaves alone: the origin, the in-edge lists with their flows, the
  network with its flows and cached lengths, the scratch buffer and the ordering.
\<close>

definition frame :: "Bush \<Rightarrow> Bush \<Rightarrow> bool" where
  "frame s s' \<longleftrightarrow> origin s' = origin s \<and> bush s' = bush s \<and> tempStore s' = tempStore s
     \<and> abGraph s' = abGraph s \<and> topologicalOrdering s' = topologicalOrdering s"

text \<open>
  The number of positions of an ordering at which a node and its successor have the same
  max distance.
\<close>

fun adjacentTies :: "Bush \<Rightarrow> nat list \<Rightarrow> nat" where
  "adjacentTies s [] = 0"
| "adjacentTies s [a] = 0"
| "adjacentTies s (a # b # rest) =
     (if maxDist (sharedNodes s a) = maxDist (sharedNodes s b) then 1 else 0)
       + adjacentTies s (b # rest)"

text \<open>
  The number of pairs of positions of an ordering whose nodes have the same max
  distance: for each position, the later positions at its distance.
\<close>

fun sameDistPairs :: "Bush \<Rightarrow> nat list \<Rightarrow> nat" where
  "sameDistPairs s [] = 0"
| "sameDistPairs s (a # rest) =
     length (filter (\<lambda>b. maxDist (sharedNodes s b) = maxDist (sharedNodes s a)) rest)
       + sameDistPairs s rest"

text \<open>
  A scan of the destination list in the words of the spec: a destination is visited by
  running the equilibration step on it if the gap of its node exceeds the accuracy, and
  by doing nothing otherwise. The gap is read when the scan reaches the destination.
\<close>

definition visitDest :: "(nat \<Rightarrow> Bush \<Rightarrow> Bush) \<Rightarrow> real \<Rightarrow> Bush \<Rightarrow> int \<times> real \<Rightarrow> Bush" where
  "visitDest eq accuracy s dd =
     (if accuracy < getDifference (sharedNodes s (nat (fst dd))) then eq (nat (fst dd)) s else s)"

text \<open>A scan performs a shift if the gap of some destination exceeds the accuracy when the
  scan reaches it; the scan is in range if every destination is a node id when the scan
  reaches it.\<close>

definition scanShifts :: "(nat \<Rightarrow> Bush \<Rightarrow> Bush) \<Rightarrow> real \<Rightarrow> Bush \<Rightarrow> (int \<times> real) list \<Rightarrow> bool" where
  "scanShifts eq accuracy s ds \<longleftrightarrow>
     (\<exists>k < length ds.
        accuracy < getDifference
          (sharedNodes (foldl (visitDest eq accuracy) s (take k ds)) (nat (fst (ds ! k)))))"

definition scanInRange :: "(nat \<Rightarrow> Bush \<Rightarrow> Bush) \<Rightarrow> real \<Rightarrow> Bush \<Rightarrow> (int \<times> real) list \<Rightarrow> bool" where
  "scanInRange eq accuracy s ds \<longleftrightarrow>
     (\<forall>k < length ds.
        0 \<le> fst (ds ! k)
        \<and> nat (fst (ds ! k)) < numVertices (abGraph (foldl (visitDest eq accuracy) s (take k ds))))"

text \<open>
  \<open>equilibration eq accuracy s n s'\<close>: from the state \<open>s\<close>, in which the trees are built,
  \<open>n\<close> scans perform a shift, each followed by a tree build, then one scan performs no
  shift, and the state is \<open>s'\<close>.
\<close>

inductive equilibration ::
  "(nat \<Rightarrow> Bush \<Rightarrow> Bush) \<Rightarrow> real \<Rightarrow> Bush \<Rightarrow> nat \<Rightarrow> Bush \<Rightarrow> bool"
  for eq :: "nat \<Rightarrow> Bush \<Rightarrow> Bush" and accuracy :: real where
  settled:
    "scanInRange eq accuracy s (dests (origin s)) \<Longrightarrow>
     \<not> scanShifts eq accuracy s (dests (origin s)) \<Longrightarrow>
     equilibration eq accuracy s 0 s"
| shifted:
    "scanInRange eq accuracy s (dests (origin s)) \<Longrightarrow>
     scanShifts eq accuracy s (dests (origin s)) \<Longrightarrow>
     buildTrees (foldl (visitDest eq accuracy) s (dests (origin s))) = Inr s2 \<Longrightarrow>
     equilibration eq accuracy s2 n s' \<Longrightarrow>
     equilibration eq accuracy s (Suc n) s'"

text \<open>
  \<open>fixRun eq accuracy s flags s'\<close>: from \<open>s\<close>, one equilibration pass and one
  restructuring pass alternate; every restructuring pass but the last reports a direction
  change, the last reports none, \<open>flags\<close> lists what the equilibration passes returned, and
  the state after the last restructuring pass is \<open>s'\<close>.
\<close>

inductive fixRun ::
  "(nat \<Rightarrow> Bush \<Rightarrow> Bush) \<Rightarrow> real \<Rightarrow> Bush \<Rightarrow> bool list \<Rightarrow> Bush \<Rightarrow> bool"
  for eq :: "nat \<Rightarrow> Bush \<Rightarrow> Bush" and accuracy :: real where
  last:
    "equilibriateFlows eq accuracy s = Some (Inr (changed, s1)) \<Longrightarrow>
     updateEdges s1 = Inr (False, s2) \<Longrightarrow>
     fixRun eq accuracy s [changed] s2"
| again:
    "equilibriateFlows eq accuracy s = Some (Inr (changed, s1)) \<Longrightarrow>
     updateEdges s1 = Inr (True, s2) \<Longrightarrow>
     fixRun eq accuracy s2 flags s' \<Longrightarrow>
     fixRun eq accuracy s (changed # flags) s'"

text \<open>
  The invariant of the data model, "for every in-edge (u -> v) present in the bush, u
  precedes v in the topological ordering", in the form the tree build needs it: along
  the list of nodes that the build visits, no in-edge of a node comes from the node
  itself or from a node that is visited later. The ordering starts with the origin and
  names no node twice.
\<close>

fun sourcesEarlier :: "Bush \<Rightarrow> nat list \<Rightarrow> bool" where
  "sourcesEarlier s [] = True"
| "sourcesEarlier s (nid # rest) =
     ((\<forall>e \<in> set (bush s ! nid). edgeFrom (abGraph s) e \<notin> set (nid # rest))
      \<and> sourcesEarlier s rest)"

definition topologicallyConsistent :: "Bush \<Rightarrow> bool" where
  "topologicallyConsistent s =
     (case topologicalOrdering s of
        [] \<Rightarrow> False
      | first # rest \<Rightarrow>
          first = getOrigin (origin s) \<and> distinct (first # rest) \<and> sourcesEarlier s rest)"

text \<open>
  A pending entry \<open>(n, i)\<close> names the in-edge in slot \<open>i\<close> of node \<open>n\<close>. For a node \<open>v\<close>,
  \<open>flaggedAt\<close> lists the flagged in-edges of \<open>v\<close> and \<open>incomingAt\<close> the flagged edges
  whose source is \<open>v\<close>, both in the order of the pending list.
\<close>

definition edgeAt :: "Bush \<Rightarrow> nat \<times> nat \<Rightarrow> BushEdge" where
  "edgeAt s c = bush s ! fst c ! snd c"

definition flaggedAt :: "Bush \<Rightarrow> (nat \<times> nat) list \<Rightarrow> nat \<Rightarrow> BushEdge list" where
  "flaggedAt s cs v = map (edgeAt s) (filter (\<lambda>c. fst c = v) cs)"

definition incomingAt :: "Bush \<Rightarrow> (nat \<times> nat) list \<Rightarrow> nat \<Rightarrow> BushEdge list" where
  "incomingAt s cs v = filter (\<lambda>e. edgeFrom (abGraph s) e = v) (map (edgeAt s) cs)"

text \<open>
  The pending list as tree maintenance leaves it: the entries of one node stand next to
  each other (\<open>groupedByNode\<close>) with ascending slots, every entry names a slot that is
  there, a flagged edge comes from another node of the bush, and no two flagged edges
  lie on one network edge.
\<close>

fun groupedByNode :: "(nat \<times> nat) list \<Rightarrow> bool" where
  "groupedByNode [] = True"
| "groupedByNode (c # cs) =
     (fst c \<notin> fst ` set (dropWhile (\<lambda>c'. fst c' = fst c) cs) \<and> groupedByNode cs)"

definition pendingWellFormed :: "Bush \<Rightarrow> (nat \<times> nat) list \<Rightarrow> bool" where
  "pendingWellFormed s cs \<longleftrightarrow>
     (\<forall>c \<in> set cs. fst c < length (bush s) \<and> snd c < length (bush s ! fst c)
         \<and> edgeFrom (abGraph s) (edgeAt s c) < length (bush s)
         \<and> edgeFrom (abGraph s) (edgeAt s c) \<noteq> fst c)
     \<and> sorted_wrt (\<lambda>c c'. fst c = fst c' \<longrightarrow> snd c < snd c') cs
     \<and> groupedByNode cs
     \<and> distinct (map (\<lambda>c. underlyingEdge (edgeAt s c)) cs)"

text \<open>What \<open>applyBushEdgeChanges\<close> leaves alone.\<close>

definition restructureFrame :: "Bush \<Rightarrow> Bush \<Rightarrow> bool" where
  "restructureFrame s s' \<longleftrightarrow> origin s' = origin s \<and> sharedNodes s' = sharedNodes s
     \<and> tempStore s' = tempStore s \<and> topologicalOrdering s' = topologicalOrdering s
     \<and> changes s' = changes s \<and> length (bush s') = length (bush s)"

text \<open>
  A valid topological ordering, as the data model has it: "for every in-edge (u -> v)
  present in the bush, u precedes v in the topological ordering". \<open>distancesIncrease\<close>
  is the precondition that the comment in \<open>topologicalSort\<close> names: an edge (v1, v2)
  exists only if maxDist(v1) < maxDist(v2), and the ends of the edges are in the ordering.
\<close>

definition validOrdering :: "Bush \<Rightarrow> bool" where
  "validOrdering s \<longleftrightarrow>
     (\<forall>j < length (topologicalOrdering s).
        \<forall>e \<in> set (bush s ! (topologicalOrdering s ! j)).
          \<exists>i < j. topologicalOrdering s ! i = edgeFrom (abGraph s) e)"

definition distancesIncrease :: "Bush \<Rightarrow> bool" where
  "distancesIncrease s \<longleftrightarrow>
     (\<forall>v \<in> set (topologicalOrdering s). \<forall>e \<in> set (bush s ! v).
        edgeFrom (abGraph s) e \<in> set (topologicalOrdering s)
        \<and> maxDist (sharedNodes s (edgeFrom (abGraph s) e)) < maxDist (sharedNodes s v))"

text \<open>
  A bush as construction and restructuring keep it: every in-edge starts at another node
  of the bush, and no two bush edges lie on one network edge. \<open>pendingOf\<close> writes out
  the pending list that has, for each node of a list, the given slots.
\<close>

definition bushWellFormed :: "Bush \<Rightarrow> bool" where
  "bushWellFormed s \<longleftrightarrow>
     (\<forall>v < length (bush s). \<forall>e \<in> set (bush s ! v).
        edgeFrom (abGraph s) e < length (bush s) \<and> edgeFrom (abGraph s) e \<noteq> v)
     \<and> distinct (map underlyingEdge (concat (bush s)))"

definition pendingOf :: "(nat \<times> nat list) list \<Rightarrow> (nat \<times> nat) list" where
  "pendingOf groups = concat (map (\<lambda>(n, ks). map (Pair n) ks) groups)"

section \<open>Theorems\<close>

lemma stable_insert_pairComparator:
  "stable_insert pairComparator x ys = insort_key fst x ys"
  by (induction ys) (auto simp: pairComparator_def)

lemma stable_sort_pairComparator: "stable_sort pairComparator xs = sort_key fst xs"
  by (induction xs) (simp_all add: stable_sort_def stable_insert_pairComparator)

lemma map_snd_sort_key_fst:
  "map snd (stable_sort pairComparator (map (\<lambda>i. (f i, i)) xs)) = sort_key f xs"
  unfolding stable_sort_pairComparator
proof (induction xs)
  case Nil
  then show ?case by simp
next
  case (Cons x xs)
  have ins: "map snd (insort_key fst (f x, x) ys) = insort_key f x (map snd ys)"
    if "\<forall>p \<in> set ys. fst p = f (snd p)" for ys
    using that by (induction ys) auto
  have inv: "\<forall>p \<in> set (sort_key fst (map (\<lambda>i. (f i, i)) xs)). fst p = f (snd p)"
    by auto
  show ?case
    using Cons.IH ins [OF inv] by simp
qed

text \<open>
  Claim C6. \<open>topologicalSort\<close> returns exactly when the scratch buffer has a slot for
  every entry of the ordering and every entry is a node of the network, and it then
  replaces the ordering by the previous ordering stably sorted on the nodes' max
  distance: the new ordering has the same entries with the same multiplicities, the max
  distances along it never decrease, and for every distance the nodes at that distance
  appear in the order they had before. The nodes, the in-edge lists, the network, the
  origin and the pending list are left as they were.
\<close>

theorem topologicalSort_stable:
  "((\<exists>s'. topologicalSort s = Inr s') \<longleftrightarrow>
      length (topologicalOrdering s) \<le> length (tempStore s)
      \<and> (\<forall>i \<in> set (topologicalOrdering s). i < numVertices (abGraph s)))
   \<and> (\<forall>s'. topologicalSort s = Inr s' \<longrightarrow>
         topologicalOrdering s' = sort_key (\<lambda>i. maxDist (sharedNodes s i)) (topologicalOrdering s)
       \<and> mset (topologicalOrdering s') = mset (topologicalOrdering s)
       \<and> sorted (map (\<lambda>i. maxDist (sharedNodes s' i)) (topologicalOrdering s'))
       \<and> (\<forall>d. filter (\<lambda>i. maxDist (sharedNodes s' i) = d) (topologicalOrdering s')
              = filter (\<lambda>i. maxDist (sharedNodes s i) = d) (topologicalOrdering s))
       \<and> sharedNodes s' = sharedNodes s \<and> bush s' = bush s \<and> abGraph s' = abGraph s
       \<and> origin s' = origin s \<and> changes s' = changes s)"
proof (intro conjI allI impI)
  show "(\<exists>s'. topologicalSort s = Inr s') \<longleftrightarrow>
      length (topologicalOrdering s) \<le> length (tempStore s)
      \<and> (\<forall>i \<in> set (topologicalOrdering s). i < numVertices (abGraph s))"
    by (simp add: topologicalSort_def Let_def)
next
  fix s'
  assume run: "topologicalSort s = Inr s'"
  let ?f = "\<lambda>i. maxDist (sharedNodes s i)"
  from run have ord: "topologicalOrdering s' = sort_key ?f (topologicalOrdering s)"
    and nodes: "sharedNodes s' = sharedNodes s"
    and rest: "bush s' = bush s" "abGraph s' = abGraph s" "origin s' = origin s"
      "changes s' = changes s"
    by (auto simp: topologicalSort_def Let_def map_snd_sort_key_fst split: if_splits)
  show "topologicalOrdering s' = sort_key ?f (topologicalOrdering s)" by (fact ord)
  show "mset (topologicalOrdering s') = mset (topologicalOrdering s)"
    by (simp add: ord)
  show "sorted (map (\<lambda>i. maxDist (sharedNodes s' i)) (topologicalOrdering s'))"
    by (simp add: ord nodes)
  show "filter (\<lambda>i. maxDist (sharedNodes s' i) = d) (topologicalOrdering s')
         = filter (\<lambda>i. maxDist (sharedNodes s i) = d) (topologicalOrdering s)" for d
    unfolding ord nodes by (rule sort_key_stable)
  show "sharedNodes s' = sharedNodes s" "bush s' = bush s" "abGraph s' = abGraph s"
    "origin s' = origin s" "changes s' = changes s"
    by (fact nodes rest)+
qed

theorem topologicalSort_stable_witness:
  "topologicalSort sortExample
     = Inr (sortExample\<lparr>tempStore := [(0, 0), (3, 2), (5, 1)], topologicalOrdering := [0, 2, 1]\<rparr>)
   \<and> (\<exists>s'. topologicalSort sortExample = Inr s' \<and> topologicalOrdering s' = [0, 2, 1])
   \<and> [0, 2, 1] = sort_key (\<lambda>i. maxDist (sharedNodes sortExample i)) [0, 1, 2]
   \<and> mset [0, 2, 1 :: nat] = mset [0, 1, 2]"
proof -
  have full: "topologicalSort sortExample
     = Inr (sortExample\<lparr>tempStore := [(0, 0), (3, 2), (5, 1)], topologicalOrdering := [0, 2, 1]\<rparr>)"
    by (simp add: topologicalSort_def stable_sort_pairComparator sortExample_def network_def
        freshNode_def)
  have pre: "length (topologicalOrdering sortExample) \<le> length (tempStore sortExample)
      \<and> (\<forall>i \<in> set (topologicalOrdering sortExample). i < numVertices (abGraph sortExample))"
    by (simp add: sortExample_def network_def)
  with topologicalSort_stable [of sortExample]
  obtain s' where run: "topologicalSort sortExample = Inr s'" by blast
  with topologicalSort_stable [of sortExample]
  have "topologicalOrdering s'
      = sort_key (\<lambda>i. maxDist (sharedNodes sortExample i)) (topologicalOrdering sortExample)"
    by blast
  then have "topologicalOrdering s' = [0, 2, 1]"
    by (simp add: sortExample_def freshNode_def)
  with run full show ?thesis by (auto simp add: sortExample_def freshNode_def)
qed

subsection \<open>What a tree build changes\<close>

lemmas example_defs = network_def constEdge_def freshNode_def newBushEdge_def

lemma buildTrees_body_frame: "frame s (buildTrees_body nid s)"
  by (simp add: frame_def buildTrees_body_def Let_def)

lemma buildTrees_loop_frame:
  "buildTrees_loop ns s = Inr s' \<Longrightarrow> frame s s'"
proof (induction ns arbitrary: s)
  case Nil
  then show ?case by (simp add: frame_def)
next
  case (Cons nid ns)
  from Cons.prems have "buildTrees_loop ns (buildTrees_body nid s) = Inr s'"
    by (simp split: if_splits)
  from Cons.IH [OF this] buildTrees_body_frame [of s nid] show ?case
    by (simp add: frame_def)
qed

lemma buildTrees_frame:
  "buildTrees s = Inr s' \<Longrightarrow> frame s s'"
  by (auto simp: buildTrees_def Let_def frame_def split: if_splits dest!: buildTrees_loop_frame)

lemma maxDifference_state:
  "maxDifference s = Inr (r, s') \<Longrightarrow> buildTrees s = Inr s'"
  by (auto simp: maxDifference_def split: sum.splits)

lemma allOrNothingCost_state:
  "allOrNothingCost s = Some (Inr (c, s')) \<Longrightarrow> buildTrees s = Inr s'"
  by (auto simp: allOrNothingCost_def split: sum.splits if_splits option.splits)

lemma lineExample_buildTrees: "buildTrees lineExample = Inr lineExample_built"
  by (simp add: buildTrees_def buildTrees_body_def updateInDistances_def setDistance_def
      edgeFrom_def edgeLength_def lineExample_def lineExample_built_def example_defs
      Let_def fun_eq_iff)

lemma lineExample_maxDifference: "maxDifference lineExample = Inr (0, lineExample_built)"
  by (simp add: maxDifference_def lineExample_buildTrees)
     (simp add: lineExample_def lineExample_built_def example_defs getDifference_def)

lemma lineExample_allOrNothingCost:
  "allOrNothingCost lineExample = Some (Inr (50, lineExample_built))"
  by (simp add: allOrNothingCost_def lineExample_buildTrees)
     (simp add: lineExample_def lineExample_built_def example_defs walkCost.simps
        edgeFrom_def edgeLength_def)

text \<open>
  Claim C10. When \<open>maxDifference\<close> or \<open>allOrNothingCost\<close> returns, the bush is in the
  state that \<open>buildTrees\<close> alone leaves it in, and that state has the in-edge lists of the
  start (so every bush-edge flow) and the network of the start (so every network-edge
  flow and every cached length), as well as the origin, the scratch buffer and the
  ordering: only the node distances and predecessors and the pending changes differ.
\<close>

theorem queries_change_trees_only:
  "(maxDifference s = Inr (r, s') \<longrightarrow>
      buildTrees s = Inr s' \<and> bush s' = bush s \<and> abGraph s' = abGraph s \<and> frame s s')
   \<and> (allOrNothingCost s = Some (Inr (c, s'')) \<longrightarrow>
      buildTrees s = Inr s'' \<and> bush s'' = bush s \<and> abGraph s'' = abGraph s \<and> frame s s'')"
proof (intro conjI impI)
  assume "maxDifference s = Inr (r, s')"
  then show b1: "buildTrees s = Inr s'" by (rule maxDifference_state)
  from buildTrees_frame [OF b1] show "frame s s'" "bush s' = bush s" "abGraph s' = abGraph s"
    by (simp_all add: frame_def)
next
  assume "allOrNothingCost s = Some (Inr (c, s''))"
  then show b2: "buildTrees s = Inr s''" by (rule allOrNothingCost_state)
  from buildTrees_frame [OF b2] show "frame s s''" "bush s'' = bush s" "abGraph s'' = abGraph s"
    by (simp_all add: frame_def)
qed

theorem queries_change_trees_only_witness:
  "maxDifference lineExample = Inr (0, lineExample_built)
   \<and> allOrNothingCost lineExample = Some (Inr (50, lineExample_built))
   \<and> buildTrees lineExample = Inr lineExample_built
   \<and> bush lineExample_built = bush lineExample
   \<and> abGraph lineExample_built = abGraph lineExample"
  using queries_change_trees_only [of lineExample 0 lineExample_built 50 lineExample_built]
    lineExample_maxDifference lineExample_allOrNothingCost
  by simp

subsection \<open>giveCount\<close>

lemma sameDistRun_ties:
  "sameDistRun s d js = Inr (n, rest) \<Longrightarrow> maxDist (sharedNodes s i) = d
     \<Longrightarrow> adjacentTies s (i # js) = n + adjacentTies s rest"
proof (induction js arbitrary: i n rest)
  case Nil
  then show ?case by simp
next
  case (Cons j js)
  show ?case
  proof (cases "d = maxDist (sharedNodes s j)")
    case True
    with Cons.prems obtain n' where run: "sameDistRun s d js = Inr (n', rest)" and n: "n = Suc n'"
      by (auto split: if_splits sum.splits)
    from Cons.IH [OF run, of j] True have "adjacentTies s (j # js) = n' + adjacentTies s rest"
      by simp
    with True Cons.prems(2) n show ?thesis by simp
  next
    case False
    with Cons.prems have "n = 0" "rest = j # js"
      by (auto split: if_splits)
    with False Cons.prems(2) show ?thesis by simp
  qed
qed

lemma giveCount_loop_ties:
  "giveCount_loop s ns c = Inr c' \<Longrightarrow> c' = c + adjacentTies s ns"
proof (induction s ns c rule: giveCount_loop.induct)
  case (1 s cnt)
  then show ?case by simp
next
  case (2 s i "is" cnt)
  from "2.prems" obtain n rest where
    run: "sameDistRun s (maxDist (sharedNodes s i)) is = Inr (n, rest)"
    and inr: "i < numVertices (abGraph s)"
    and loop: "giveCount_loop s rest (cnt + n) = Inr c'"
    by (auto split: if_splits sum.splits)
  from "2.IH" [OF inr run refl loop] have "c' = cnt + n + adjacentTies s rest" .
  with sameDistRun_ties [OF run refl] show ?case by simp
qed

lemma sameDistRun_total:
  "\<forall>j \<in> set js. j < numVertices (abGraph s) \<Longrightarrow>
     \<exists>n rest. sameDistRun s d js = Inr (n, rest) \<and> set rest \<subseteq> set js"
  by (induction js) (auto split: sum.splits)

lemma giveCount_loop_total:
  "\<forall>j \<in> set ns. j < numVertices (abGraph s) \<Longrightarrow> \<exists>c'. giveCount_loop s ns c = Inr c'"
proof (induction s ns c rule: giveCount_loop.induct)
  case (1 s cnt)
  then show ?case by simp
next
  case (2 s i "is" cnt)
  from "2.prems" have inr: "i < numVertices (abGraph s)" and rest: "\<forall>j \<in> set is. j < numVertices (abGraph s)"
    by simp_all
  from sameDistRun_total [OF rest] obtain n rest where
    run: "sameDistRun s (maxDist (sharedNodes s i)) is = Inr (n, rest)" and sub: "set rest \<subseteq> set is"
    by blast
  from sub rest have "\<forall>j \<in> set rest. j < numVertices (abGraph s)" by blast
  from "2.IH" [OF inr run refl this] obtain c' where "giveCount_loop s rest (cnt + n) = Inr c'" by blast
  with inr run show ?case by simp
qed

text \<open>
  Claim C7, as amended. \<open>giveCount\<close> rebuilds the trees and returns the number of
  adjacent positions of the topological ordering whose two nodes have the same max
  distance: a run of \<open>r\<close> consecutive nodes at one distance counts \<open>r - 1\<close>. It returns
  whenever the tree build does and the entries of the ordering are node ids.
\<close>

theorem giveCount_adjacent_ties:
  assumes "buildTrees s = Inr s'"
    and "\<forall>i \<in> set (topologicalOrdering s'). i < numVertices (abGraph s')"
  shows "giveCount s = Inr (int (adjacentTies s' (topologicalOrdering s')), s')"
proof -
  from giveCount_loop_total [OF assms(2)] obtain c where
    c: "giveCount_loop s' (topologicalOrdering s') 0 = Inr c" by blast
  from giveCount_loop_ties [OF c] have "c = adjacentTies s' (topologicalOrdering s')" by simp
  with c assms(1) show ?thesis by (simp add: giveCount_def)
qed

lemma starExample_buildTrees: "buildTrees starExample = Inr starExample_built"
  by (simp add: buildTrees_def buildTrees_body_def updateInDistances_def setDistance_def
      edgeFrom_def edgeLength_def starExample_def starExample_built_def example_defs
      Let_def fun_eq_iff)

text \<open>
  Claim C7 as stated fails: with three nodes at distance 1 there are three pairs of
  nodes at the same max distance, and \<open>giveCount\<close> returns 2.
\<close>

theorem giveCount_pairs_counterexample:
  "giveCount starExample = Inr (2, starExample_built)
   \<and> sameDistPairs starExample_built (topologicalOrdering starExample_built) = 3"
  by (simp add: giveCount_def starExample_buildTrees)
     (simp add: starExample_def starExample_built_def example_defs)

theorem giveCount_adjacent_ties_witness: "buildTrees starExample = Inr starExample_built \<and> giveCount starExample = Inr (2, starExample_built)"
  using giveCount_adjacent_ties [OF starExample_buildTrees] starExample_buildTrees
  by (simp add: starExample_def starExample_built_def example_defs)

subsection \<open>Construction\<close>

lemma setUpGraph_edges_char:
  "setUpGraph_edges dm g es b = Inr b' \<Longrightarrow>
     length b' = length b \<and>
     (\<forall>v < length b. b' ! v = b ! v @ map newBushEdge
        (filter (\<lambda>e. toNode (edgeStore g e) = v
                     \<and> dm ! toNode (edgeStore g e) \<noteq> - 1 \<and> dm ! fromNode (edgeStore g e) \<noteq> - 1
                     \<and> dm ! fromNode (edgeStore g e) < dm ! toNode (edgeStore g e)) es))"
proof (induction es arbitrary: b)
  case Nil
  then show ?case by simp
next
  case (Cons e es)
  let ?t = "toNode (edgeStore g e)" and ?f = "fromNode (edgeStore g e)"
  show ?case
  proof (cases "dm ! ?t \<noteq> - 1 \<and> dm ! ?f \<noteq> - 1 \<and> dm ! ?f < dm ! ?t")
    case True
    with Cons.prems have t: "?t < length b"
      and run: "setUpGraph_edges dm g es (b[?t := b ! ?t @ [newBushEdge e]]) = Inr b'"
      by (auto simp: Let_def split: if_splits)
    from Cons.IH [OF run] True t show ?thesis
      by (auto simp: nth_list_update)
  next
    case False
    with Cons.prems have run: "setUpGraph_edges dm g es b = Inr b'"
      by (auto simp: Let_def split: if_splits)
    from Cons.IH [OF run] False show ?thesis
      by auto
  qed
qed

lemma setUpGraph_edges_total:
  "\<forall>e \<in> set es. toNode (edgeStore g e) < length dm \<and> fromNode (edgeStore g e) < length dm
       \<and> toNode (edgeStore g e) < length b
   \<Longrightarrow> \<exists>b'. setUpGraph_edges dm g es b = Inr b'"
  by (induction es arbitrary: b) (auto simp: Let_def)

lemma unreachableDests_total:
  "\<forall>(d, demand) \<in> set ds. 0 \<le> d \<and> nat d < length dm \<Longrightarrow> \<exists>out. unreachableDests dm r ds = Inr out"
  by (induction ds) (auto split: sum.splits)

text \<open>
  Claim C4. At construction the in-edge lists are empty. When \<open>setUpGraph\<close> is handed
  destinations and network edges whose node ids are in range, and Dijkstra's distance
  map has one entry per node, it returns, and in the bush it returns a network edge
  \<open>e\<close> is an in-edge of node \<open>v\<close> exactly when \<open>v\<close> is the to-node of \<open>e\<close>, both ends of
  \<open>e\<close> were reached (position other than \<open>-1\<close>), and the position of the from-node is
  strictly smaller than that of the to-node. So an edge with both ends reached is an
  in-edge of its to-node if and only if its from-node comes strictly first, and an edge
  with an end that was not reached is in no in-edge list.
\<close>

theorem setUpGraph_in_edges:
  assumes dij: "dijkstra (getOrigin (origin s)) (replicate (numVertices (abGraph s)) (- 1))
                  (topologicalOrdering s) = (distanceMap, topo)"
    and len: "length distanceMap = numVertices (abGraph s)"
    and init: "bush s = replicate (numVertices (abGraph s)) []"
    and ds: "\<forall>(d, demand) \<in> set (dests (origin s)). 0 \<le> d \<and> nat d < numVertices (abGraph s)"
    and arcs: "\<forall>e < numEdges (abGraph s).
                 fromNode (edgeStore (abGraph s) e) < numVertices (abGraph s)
               \<and> toNode (edgeStore (abGraph s) e) < numVertices (abGraph s)"
  shows "\<exists>out s'. setUpGraph dijkstra s = Inr (out, s') \<and>
           (\<forall>e < numEdges (abGraph s). \<forall>v < numVertices (abGraph s).
              (e \<in> underlyingEdge ` set (bush s' ! v)) \<longleftrightarrow>
              (v = toNode (edgeStore (abGraph s) e)
               \<and> distanceMap ! fromNode (edgeStore (abGraph s) e) \<noteq> - 1
               \<and> distanceMap ! toNode (edgeStore (abGraph s) e) \<noteq> - 1
               \<and> distanceMap ! fromNode (edgeStore (abGraph s) e)
                   < distanceMap ! toNode (edgeStore (abGraph s) e)))"
proof -
  let ?g = "abGraph s"
  from unreachableDests_total [of "dests (origin s)" distanceMap "getOrigin (origin s)"] ds len
  obtain out where out: "unreachableDests distanceMap (getOrigin (origin s)) (dests (origin s)) = Inr out"
    by auto
  from arcs len init
  have "\<forall>e \<in> set [0..<numEdges ?g]. toNode (edgeStore ?g e) < length distanceMap
          \<and> fromNode (edgeStore ?g e) < length distanceMap \<and> toNode (edgeStore ?g e) < length (bush s)"
    by simp
  from setUpGraph_edges_total [OF this] obtain b where
    b: "setUpGraph_edges distanceMap ?g [0..<numEdges ?g] (bush s) = Inr b" by blast
  from out b dij have res: "setUpGraph dijkstra s = Inr (out, s\<lparr>bush := b, topologicalOrdering := topo\<rparr>)"
    by (simp add: setUpGraph_def)
  from setUpGraph_edges_char [OF b] init
  have nth: "\<forall>v < numVertices ?g. b ! v = map newBushEdge
        (filter (\<lambda>e. toNode (edgeStore ?g e) = v
                     \<and> distanceMap ! toNode (edgeStore ?g e) \<noteq> - 1 \<and> distanceMap ! fromNode (edgeStore ?g e) \<noteq> - 1
                     \<and> distanceMap ! fromNode (edgeStore ?g e) < distanceMap ! toNode (edgeStore ?g e)) [0..<numEdges ?g])"
    by simp
  have "(e \<in> underlyingEdge ` set (b ! v)) \<longleftrightarrow>
              (v = toNode (edgeStore ?g e)
               \<and> distanceMap ! fromNode (edgeStore ?g e) \<noteq> - 1
               \<and> distanceMap ! toNode (edgeStore ?g e) \<noteq> - 1
               \<and> distanceMap ! fromNode (edgeStore ?g e) < distanceMap ! toNode (edgeStore ?g e))"
    if "e < numEdges ?g" "v < numVertices ?g" for e v
    using that nth by (auto simp: newBushEdge_def image_iff)
  with res show ?thesis by simp
qed

lemma replicate_6: "replicate 6 x = [x, x, x, x, x, x]"
  by (simp add: numeral_eq_Suc)

theorem setUpGraph_in_edges_witness:
  "\<exists>out s'. setUpGraph sixNodes_dijkstra (sixNodes_start [(3, 10)]) = Inr (out, s') \<and>
           (\<forall>e < numEdges sixNodes. \<forall>v < numVertices sixNodes.
              (e \<in> underlyingEdge ` set (bush s' ! v)) \<longleftrightarrow>
              (v = toNode (edgeStore sixNodes e)
               \<and> [0, 1, - 1, 2, - 1, - 1 :: 32 word] ! fromNode (edgeStore sixNodes e) \<noteq> - 1
               \<and> [0, 1, - 1, 2, - 1, - 1 :: 32 word] ! toNode (edgeStore sixNodes e) \<noteq> - 1
               \<and> [0, 1, - 1, 2, - 1, - 1 :: 32 word] ! fromNode (edgeStore sixNodes e)
                   < [0, 1, - 1, 2, - 1, - 1 :: 32 word] ! toNode (edgeStore sixNodes e)))"
proof -
  have arcs: "\<forall>e<numEdges (abGraph (sixNodes_start [(3, 10)])).
       fromNode (edgeStore (abGraph (sixNodes_start [(3, 10)])) e) < numVertices (abGraph (sixNodes_start [(3, 10)])) \<and>
       toNode (edgeStore (abGraph (sixNodes_start [(3, 10)])) e) < numVertices (abGraph (sixNodes_start [(3, 10)]))"
    by (auto simp: sixNodes_start_def sixNodes_def example_defs less_Suc_eq numeral_eq_Suc)
  show ?thesis
  using setUpGraph_in_edges [of sixNodes_dijkstra "sixNodes_start [(3, 10)]" "[0, 1, - 1, 2, - 1, - 1]" "[0, 1, 3]", OF _ _ _ _ arcs]
  by (simp add: sixNodes_dijkstra_def sixNodes_start_def sixNodes_def network_def)
qed

text \<open>
  Claim C8 fails on the code. Origin 0 asks for the destination 5, which Dijkstra did
  not reach. \<open>setUpGraph\<close> writes the diagnostic for (0, 5) and returns; the tree build
  never visits node 5 and node 5 has no in-edge; \<open>sendInitialFlows\<close> then starts its
  walk at node 5 and dereferences the predecessor pointer of that node, which no tree
  build of this bush has set. Whatever the nodes held before, construction does not
  return a bush.
\<close>

theorem construct_unreachable_dest: 
  "setUpGraph sixNodes_dijkstra
       \<lparr>origin = \<lparr>getOrigin = 0, dests = [(5, 4)]\<rparr>, bush = replicate (numVertices sixNodes) [], sharedNodes = nodes,
              tempStore = scratch, abGraph = sixNodes, topologicalOrdering = [], changes = []\<rparr>
     = Inr ([(0, 5)], \<lparr>origin = \<lparr>getOrigin = 0, dests = [(5, 4)]\<rparr>, 
            bush = [[], [newBushEdge 0], [], [newBushEdge 1, newBushEdge 4], [], []], sharedNodes = nodes,
              tempStore = scratch, abGraph = sixNodes, topologicalOrdering = [0, 1, 3], changes = []\<rparr>)
   \<and> construct sixNodes_dijkstra \<lparr>getOrigin = 0, dests = [(5, 4)]\<rparr> sixNodes nodes scratch
     = Some (Inl UndefinedBehaviour)"
proof -
  have su: "setUpGraph sixNodes_dijkstra
       \<lparr>origin = \<lparr>getOrigin = 0, dests = [(5, 4)]\<rparr>, bush = replicate (numVertices sixNodes) [], sharedNodes = nodes,
              tempStore = scratch, abGraph = sixNodes, topologicalOrdering = [], changes = []\<rparr>
     = Inr ([(0, 5)], \<lparr>origin = \<lparr>getOrigin = 0, dests = [(5, 4)]\<rparr>, 
            bush = [[], [newBushEdge 0], [], [newBushEdge 1, newBushEdge 4], [], []], sharedNodes = nodes,
              tempStore = scratch, abGraph = sixNodes, topologicalOrdering = [0, 1, 3], changes = []\<rparr>)"
    by (simp add: setUpGraph_def sixNodes_dijkstra_def sixNodes_def example_defs Let_def replicate_6)
  have bt: "\<exists>s2. buildTrees \<lparr>origin = \<lparr>getOrigin = 0, dests = [(5, 4)]\<rparr>, 
            bush = [[], [newBushEdge 0], [], [newBushEdge 1, newBushEdge 4], [], []], sharedNodes = nodes,
              tempStore = scratch, abGraph = sixNodes, topologicalOrdering = [0, 1, 3], changes = []\<rparr> = Inr s2
          \<and> origin s2 = \<lparr>getOrigin = 0, dests = [(5, 4)]\<rparr> \<and> numVertices (abGraph s2) = 6
          \<and> bush s2 ! 5 = [] \<and> length (bush s2) = 6"
    by (simp add: buildTrees_def buildTrees_body_def sixNodes_def example_defs Let_def)
  then obtain s2 where s2: "buildTrees \<lparr>origin = \<lparr>getOrigin = 0, dests = [(5, 4)]\<rparr>, 
            bush = [[], [newBushEdge 0], [], [newBushEdge 1, newBushEdge 4], [], []], sharedNodes = nodes,
              tempStore = scratch, abGraph = sixNodes, topologicalOrdering = [0, 1, 3], changes = []\<rparr> = Inr s2"
    and f: "origin s2 = \<lparr>getOrigin = 0, dests = [(5, 4)]\<rparr>" "numVertices (abGraph s2) = 6"
          "bush s2 ! 5 = []" "length (bush s2) = 6"
    by blast
  have "flowBack 4 0 5 s2 = Some (Inl UndefinedBehaviour)"
    by (subst flowBack.simps) (simp add: f split: option.splits)
  then have "sendInitialFlows s2 = Some (Inl UndefinedBehaviour)"
    by (simp add: sendInitialFlows_def f)
  with su s2 show ?thesis
    by (simp add: construct_def)
qed











subsection \<open>Equilibration and the driver\<close>

lemma scanInRange_Cons:
  "scanInRange eq accuracy s (dd # ds) \<longleftrightarrow>
     (0 \<le> fst dd \<and> nat (fst dd) < numVertices (abGraph s))
     \<and> scanInRange eq accuracy (visitDest eq accuracy s dd) ds"
  by (auto simp: scanInRange_def less_Suc_eq_0_disj)

lemma scanShifts_Cons:
  "scanShifts eq accuracy s (dd # ds) \<longleftrightarrow>
     accuracy < getDifference (sharedNodes s (nat (fst dd)))
     \<or> scanShifts eq accuracy (visitDest eq accuracy s dd) ds"
  by (auto simp: scanShifts_def less_Suc_eq_0_disj)

lemma visitDest_pair:
  "visitDest eq accuracy s (d, demand) =
     (if accuracy < getDifference (sharedNodes s (nat d)) then eq (nat d) s else s)"
  by (simp add: visitDest_def)

lemma scanDests_spec:
  "scanDests eq accuracy ds t s =
     (if scanInRange eq accuracy s ds
      then Inr (t \<or> scanShifts eq accuracy s ds, foldl (visitDest eq accuracy) s ds)
      else Inl UndefinedBehaviour)"
proof (induction ds arbitrary: t s)
  case Nil
  then show ?case by (simp add: scanInRange_def scanShifts_def)
next
  case (Cons dd ds)
  obtain d demand where dd: "dd = (d, demand)" by (cases dd)
  show ?case
    unfolding dd scanInRange_Cons scanShifts_Cons
    by (simp add: Cons.IH visitDest_pair)
qed

lemma no_shift_same:
  "\<not> scanShifts eq accuracy s ds \<Longrightarrow> foldl (visitDest eq accuracy) s ds = s"
  by (induction ds arbitrary: s) (auto simp: scanShifts_Cons visitDest_pair)

lemma equilibration_loop:
  "equilibration eq accuracy s n s' \<Longrightarrow>
     equilibriateFlows_loop eq accuracy fc s = Some (Inr (fc \<or> 0 < n, s'))"
proof (induction arbitrary: fc rule: equilibration.induct)
  case (settled s)
  then show ?case
    by (subst equilibriateFlows_loop.simps) (simp add: scanDests_spec no_shift_same)
next
  case (shifted s s2 n s')
  then show ?case
    by (subst equilibriateFlows_loop.simps) (simp add: scanDests_spec)
qed

lemma loop_equilibration:
  assumes "equilibriateFlows_loop eq accuracy fc s = Some y"
  shows "\<forall>b s'. y = Inr (b, s') \<longrightarrow> (\<exists>n. equilibration eq accuracy s n s' \<and> b = (fc \<or> 0 < n))"
proof (rule equilibriateFlows_loop.raw_induct [where P = "\<lambda>eq accuracy fc s y.
    \<forall>b s'. y = Inr (b, s') \<longrightarrow> (\<exists>n. equilibration eq accuracy s n s' \<and> b = (fc \<or> 0 < n))",
    OF _ assms])
  fix loop :: "(nat \<Rightarrow> Bush \<Rightarrow> Bush) \<Rightarrow> real \<Rightarrow> bool \<Rightarrow> Bush \<Rightarrow> (bool \<times> Bush) result option"
    and eq accuracy fc and s :: Bush and y
  assume IH: "\<And>eq accuracy fc s y. loop eq accuracy fc s = Some y \<Longrightarrow>
     \<forall>b s'. y = Inr (b, s') \<longrightarrow> (\<exists>n. equilibration eq accuracy s n s' \<and> b = (fc \<or> 0 < n))"
  assume eq: "(case scanDests eq accuracy (dests (origin s)) False s of
        Inl e \<Rightarrow> Some (Inl e)
      | Inr (thisTime, s1) \<Rightarrow>
          (if \<not> thisTime then Some (Inr (fc \<or> thisTime, s1))
           else
             (case buildTrees s1 of
                Inl e \<Rightarrow> Some (Inl e)
              | Inr s2 \<Rightarrow> loop eq accuracy (fc \<or> thisTime) s2))) = Some y"
  show "\<forall>b s'. y = Inr (b, s') \<longrightarrow> (\<exists>n. equilibration eq accuracy s n s' \<and> b = (fc \<or> 0 < n))"
  proof (intro allI impI)
    fix b s' assume y: "y = Inr (b, s')"
    from eq y have inr: "scanInRange eq accuracy s (dests (origin s))"
      by (auto simp: scanDests_spec split: if_splits)
    show "\<exists>n. equilibration eq accuracy s n s' \<and> b = (fc \<or> 0 < n)"
    proof (cases "scanShifts eq accuracy s (dests (origin s))")
      case False
      with eq y inr have "s' = s" "b = fc"
        by (auto simp: scanDests_spec no_shift_same)
      with inr False show ?thesis
        by (auto intro: equilibration.settled)
    next
      case True
      with eq y inr obtain s2 where
        bt: "buildTrees (foldl (visitDest eq accuracy) s (dests (origin s))) = Inr s2"
        and call: "loop eq accuracy True s2 = Some y"
        by (auto simp: scanDests_spec split: sum.splits)
      from IH [OF call] y obtain n where "equilibration eq accuracy s2 n s'" "b = True"
        by auto
      with inr True bt show ?thesis
        by (auto intro: equilibration.shifted)
    qed
  qed
qed

text \<open>
  Claim C2. \<open>equilibriateFlows\<close> returns \<open>(b, s')\<close> exactly when the first tree build
  succeeds and, from the state it gives, some number \<open>n\<close> of scans each run the
  equilibration step on the destinations whose gap exceeds the accuracy (at least one of
  them) and are followed by a tree build, a last scan finds no such destination, \<open>s'\<close>
  is the state then, and \<open>b\<close> says that \<open>n\<close> is not 0, that is, that a shift was made.
\<close>

theorem equilibriateFlows_passes:
  "equilibriateFlows eq accuracy s = Some (Inr (b, s')) \<longleftrightarrow>
     (\<exists>s0 n. buildTrees s = Inr s0 \<and> equilibration eq accuracy s0 n s' \<and> b = (0 < n))"
proof
  assume run: "equilibriateFlows eq accuracy s = Some (Inr (b, s'))"
  then obtain s0 where bt: "buildTrees s = Inr s0"
    and lp: "equilibriateFlows_loop eq accuracy False s0 = Some (Inr (b, s'))"
    by (auto simp: equilibriateFlows_def split: sum.splits)
  from loop_equilibration [OF lp] bt
  show "\<exists>s0 n. buildTrees s = Inr s0 \<and> equilibration eq accuracy s0 n s' \<and> b = (0 < n)"
    by auto
next
  assume "\<exists>s0 n. buildTrees s = Inr s0 \<and> equilibration eq accuracy s0 n s' \<and> b = (0 < n)"
  then obtain s0 n where bt: "buildTrees s = Inr s0"
    and e: "equilibration eq accuracy s0 n s'" and b: "b = (0 < n)"
    by blast
  from equilibration_loop [OF e, of False] bt b
  show "equilibriateFlows eq accuracy s = Some (Inr (b, s'))"
    by (simp add: equilibriateFlows_def)
qed

lemma fixRun_loop:
  "fixRun eq accuracy s flags s' \<Longrightarrow>
     fix_loop eq accuracy lfc s = Some (Inr (lfc \<or> True \<in> set flags, s'))"
proof (induction arbitrary: lfc rule: fixRun.induct)
  case (last s changed s1 s2)
  then show ?case
    by (subst fix_loop.simps) auto
next
  case (again s changed s1 s2 flags s')
  from again.hyps(1,2) again.IH [of "changed \<or> lfc"] show ?case
    by (subst fix_loop.simps) auto
qed

lemma loop_fixRun:
  assumes "fix_loop eq accuracy lfc s = Some y"
  shows "\<forall>r s'. y = Inr (r, s') \<longrightarrow>
           (\<exists>flags. fixRun eq accuracy s flags s' \<and> r = (lfc \<or> True \<in> set flags))"
proof (rule fix_loop.raw_induct [where P = "\<lambda>eq accuracy lfc s y.
    \<forall>r s'. y = Inr (r, s') \<longrightarrow>
           (\<exists>flags. fixRun eq accuracy s flags s' \<and> r = (lfc \<or> True \<in> set flags))",
    OF _ assms])
  fix loop :: "(nat \<Rightarrow> Bush \<Rightarrow> Bush) \<Rightarrow> real \<Rightarrow> bool \<Rightarrow> Bush \<Rightarrow> (bool \<times> Bush) result option"
    and eq accuracy lfc and s :: Bush and y
  assume IH: "\<And>eq accuracy lfc s y. loop eq accuracy lfc s = Some y \<Longrightarrow>
     \<forall>r s'. y = Inr (r, s') \<longrightarrow>
           (\<exists>flags. fixRun eq accuracy s flags s' \<and> r = (lfc \<or> True \<in> set flags))"
  assume eq: "(case equilibriateFlows eq accuracy s of
        None \<Rightarrow> None
      | Some (Inl e) \<Rightarrow> Some (Inl e)
      | Some (Inr (changed, s1)) \<Rightarrow>
          (case updateEdges s1 of
             Inl e \<Rightarrow> Some (Inl e)
           | Inr (again, s2) \<Rightarrow>
               if again then loop eq accuracy (changed \<or> lfc) s2
               else Some (Inr (changed \<or> lfc, s2)))) = Some y"
  show "\<forall>r s'. y = Inr (r, s') \<longrightarrow>
           (\<exists>flags. fixRun eq accuracy s flags s' \<and> r = (lfc \<or> True \<in> set flags))"
  proof (intro allI impI)
    fix r s' assume y: "y = Inr (r, s')"
    from eq y obtain changed s1 again s2 where
      ef: "equilibriateFlows eq accuracy s = Some (Inr (changed, s1))"
      and ue: "updateEdges s1 = Inr (again, s2)"
      and rest: "(if again then loop eq accuracy (changed \<or> lfc) s2
                  else Some (Inr (changed \<or> lfc, s2))) = Some y"
      by (auto split: option.splits sum.splits)
    show "\<exists>flags. fixRun eq accuracy s flags s' \<and> r = (lfc \<or> True \<in> set flags)"
    proof (cases again)
      case False
      with rest y have "s' = s2" "r = (changed \<or> lfc)" by auto
      with ef ue False have "fixRun eq accuracy s [changed] s'" "r = (lfc \<or> True \<in> set [changed])"
        by (auto intro: fixRun.last)
      then show ?thesis by blast
    next
      case True
      with rest have call: "loop eq accuracy (changed \<or> lfc) s2 = Some y" by simp
      from IH [OF call] y obtain flags where
        run: "fixRun eq accuracy s2 flags s'" and r: "r = ((changed \<or> lfc) \<or> True \<in> set flags)"
        by blast
      from ef ue True run have "fixRun eq accuracy s (changed # flags) s'"
        by (auto intro: fixRun.again)
      moreover from r have "r = (lfc \<or> True \<in> set (changed # flags))" by auto
      ultimately show ?thesis by blast
    qed
  qed
qed

text \<open>
  Claim C1. For every accuracy (and every equilibration step), \<open>fix\<close> returns \<open>(r, s')\<close>
  exactly when equilibration passes and restructuring passes alternate from the start
  state, the run ends at the first restructuring pass that reports no direction change,
  \<open>s'\<close> is the state then, and \<open>r\<close> says that some equilibration pass returned true.
\<close>

theorem fix_alternates:
  "fix_bush eq accuracy s = Some (Inr (r, s')) \<longleftrightarrow>
     (\<exists>flags. fixRun eq accuracy s flags s' \<and> r = (True \<in> set flags))"
proof
  assume "fix_bush eq accuracy s = Some (Inr (r, s'))"
  then have "fix_loop eq accuracy False s = Some (Inr (r, s'))" by (simp add: fix_bush_def)
  from loop_fixRun [OF this] show "\<exists>flags. fixRun eq accuracy s flags s' \<and> r = (True \<in> set flags)"
    by simp
next
  assume "\<exists>flags. fixRun eq accuracy s flags s' \<and> r = (True \<in> set flags)"
  then obtain flags where "fixRun eq accuracy s flags s'" "r = (True \<in> set flags)" by blast
  with fixRun_loop [of eq accuracy s flags s' False]
  show "fix_bush eq accuracy s = Some (Inr (r, s'))" by (simp add: fix_bush_def)
qed

lemmas run_defs = buildTrees_def buildTrees_body_def updateInDistances_def setDistance_def
  getDifference_def edgeFrom_def edgeLength_def Let_def

lemma diamond_equilibriateFlows:
  "\<exists>s'. equilibriateFlows shortenExample (1 / 2) diamondExample = Some (Inr (True, s'))"
  by (simp add: equilibriateFlows_def equilibriateFlows_loop.simps run_defs
      diamondExample_def shortenExample_def example_defs)

lemma diamond_fix:
  "\<exists>s'. fix_bush shortenExample (1 / 2) diamondExample = Some (Inr (True, s'))"
  by (simp add: fix_bush_def fix_loop.simps equilibriateFlows_def equilibriateFlows_loop.simps run_defs
      updateEdges_def applyBushEdgeChanges_def topologicalSort_def swapDirection_def swapEnds_def
      resize_def stable_sort_pairComparator diamondExample_def shortenExample_def example_defs)


theorem equilibriateFlows_passes_witness:
  "\<exists>s'. equilibriateFlows shortenExample (1 / 2) diamondExample = Some (Inr (True, s'))
     \<and> (\<exists>s0 n. buildTrees diamondExample = Inr s0
           \<and> equilibration shortenExample (1 / 2) s0 n s' \<and> 0 < n)"
proof -
  from diamond_equilibriateFlows obtain s' where
    run: "equilibriateFlows shortenExample (1 / 2) diamondExample = Some (Inr (True, s'))"
    by blast
  from equilibriateFlows_passes [THEN iffD1, OF run] run show ?thesis
    by blast
qed

theorem fix_alternates_witness:
  "\<exists>s'. fix_bush shortenExample (1 / 2) diamondExample = Some (Inr (True, s'))
     \<and> (\<exists>flags. fixRun shortenExample (1 / 2) diamondExample flags s' \<and> True \<in> set flags)"
proof -
  from diamond_fix obtain s' where
    run: "fix_bush shortenExample (1 / 2) diamondExample = Some (Inr (True, s'))"
    by blast
  from fix_alternates [THEN iffD1, OF run] run show ?thesis
    by blast
qed

subsection \<open>Two tree builds in a row\<close>

lemma scanInEdges_local:
  "\<forall>e \<in> set es. nodes (edgeFrom g e) = nodes' (edgeFrom g e) \<Longrightarrow>
     scanInEdges g nodes es k v = scanInEdges g nodes' es k v"
  by (induction es arbitrary: k v) (simp_all add: Let_def)

lemma updateInDistances_local:
  "\<forall>e \<in> set es. nodes (edgeFrom g e) = nodes' (edgeFrom g e) \<Longrightarrow>
     updateInDistances g nodes es v = updateInDistances g nodes' es v"
  by (cases es) (simp_all add: updateInDistances_def scanInEdges_local)

lemma updateInDistances_own:
  "updateInDistances g nodes es (updateInDistances g nodes es v) = updateInDistances g nodes es v"
  by (cases es) (simp_all add: updateInDistances_def)

lemma updateEdges3_local:
  "\<forall>e \<in> set es. nodes (edgeFrom g e) = nodes' (edgeFrom g e) \<Longrightarrow>
     updateEdges3 g nodes es maxD nid k = updateEdges3 g nodes' es maxD nid k"
  by (induction es arbitrary: k) simp_all

lemma buildTrees_body_nodes:
  "sharedNodes (buildTrees_body nid s) u =
     (if u = nid then updateInDistances (abGraph s) (sharedNodes s) (bush s ! nid) (sharedNodes s nid)
      else sharedNodes s u)"
  by (simp add: buildTrees_body_def Let_def)

lemma buildTrees_loop_others:
  "buildTrees_loop ns s = Inr s' \<Longrightarrow> u \<notin> set ns \<Longrightarrow> sharedNodes s' u = sharedNodes s u"
proof (induction ns arbitrary: s)
  case Nil
  then show ?case by simp
next
  case (Cons nid ns)
  from Cons.prems have run: "buildTrees_loop ns (buildTrees_body nid s) = Inr s'"
    and u: "u \<notin> set ns" "u \<noteq> nid"
    by (auto split: if_splits)
  from Cons.IH [OF run u(1)] u(2) show ?case
    by (simp add: buildTrees_body_nodes)
qed

lemma sourcesEarlier_frame:
  "bush s' = bush s \<Longrightarrow> abGraph s' = abGraph s \<Longrightarrow> sourcesEarlier s' ns = sourcesEarlier s ns"
  by (induction ns) simp_all

lemma buildTrees_body_again:
  assumes src: "\<forall>e \<in> set (bush s ! nid). edgeFrom (abGraph s) e \<noteq> nid
                  \<and> nodes1 (edgeFrom (abGraph s) e) = sharedNodes s (edgeFrom (abGraph s) e)"
    and own: "nodes1 nid = sharedNodes (buildTrees_body nid s) nid"
  shows "buildTrees_body nid (s\<lparr>sharedNodes := nodes1\<rparr>)
           = (buildTrees_body nid s)\<lparr>sharedNodes := nodes1\<rparr>"
proof -
  let ?g = "abGraph s" and ?es = "bush s ! nid"
  let ?v = "updateInDistances ?g (sharedNodes s) ?es (sharedNodes s nid)"
  from own have own': "nodes1 nid = ?v" by (simp add: buildTrees_body_nodes)
  from src have loc: "\<forall>e \<in> set ?es. nodes1 (edgeFrom ?g e) = sharedNodes s (edgeFrom ?g e)"
    by blast
  have v: "updateInDistances ?g nodes1 ?es (nodes1 nid) = ?v"
    unfolding own' updateInDistances_local [OF loc] by (rule updateInDistances_own)
  have upd: "nodes1(nid := ?v) = nodes1"
    using own' by (simp add: fun_upd_idem)
  from src have loc2: "\<forall>e \<in> set ?es. nodes1 (edgeFrom ?g e) = ((sharedNodes s)(nid := ?v)) (edgeFrom ?g e)"
    by simp
  have ch: "updateEdges3 ?g nodes1 ?es (maxDist ?v) nid 0
              = updateEdges3 ?g ((sharedNodes s)(nid := ?v)) ?es (maxDist ?v) nid 0"
    by (rule updateEdges3_local [OF loc2])
  have n: "sharedNodes (buildTrees_body nid (s\<lparr>sharedNodes := nodes1\<rparr>)) = nodes1"
    by (simp add: buildTrees_body_def Let_def v upd)
  have c: "changes (buildTrees_body nid (s\<lparr>sharedNodes := nodes1\<rparr>)) = changes (buildTrees_body nid s)"
    by (simp add: buildTrees_body_def Let_def v upd ch)
  show ?thesis
    by (rule Bush.equality) (simp_all add: n c, simp_all add: buildTrees_body_def Let_def)
qed

lemma buildTrees_loop_again:
  "buildTrees_loop ns s = Inr s1 \<Longrightarrow> distinct ns \<Longrightarrow> sourcesEarlier s ns
     \<Longrightarrow> buildTrees_loop ns (s\<lparr>sharedNodes := sharedNodes s1\<rparr>) = Inr s1"
proof (induction ns arbitrary: s)
  case Nil
  then show ?case by auto
next
  case (Cons nid ns)
  let ?s' = "buildTrees_body nid s"
  from Cons.prems(1) have inr: "nid < numVertices (abGraph s) \<and> nid < length (bush s)"
    and run: "buildTrees_loop ns ?s' = Inr s1"
    by (auto split: if_splits)
  from Cons.prems(2) have d: "nid \<notin> set ns" "distinct ns" by simp_all
  from Cons.prems(3) have src: "\<forall>e \<in> set (bush s ! nid). edgeFrom (abGraph s) e \<notin> set (nid # ns)"
    and rest: "sourcesEarlier s ns" by simp_all
  have fr: "frame s ?s'" by (rule buildTrees_body_frame)
  with rest sourcesEarlier_frame [of ?s' s ns] have rest': "sourcesEarlier ?s' ns"
    by (simp add: frame_def)
  have own: "sharedNodes s1 nid = sharedNodes ?s' nid"
    by (rule buildTrees_loop_others [OF run d(1)])
  have "\<forall>e \<in> set (bush s ! nid). edgeFrom (abGraph s) e \<noteq> nid
          \<and> sharedNodes s1 (edgeFrom (abGraph s) e) = sharedNodes s (edgeFrom (abGraph s) e)"
  proof
    fix e assume e: "e \<in> set (bush s ! nid)"
    with src have u: "edgeFrom (abGraph s) e \<noteq> nid" "edgeFrom (abGraph s) e \<notin> set ns" by auto
    from buildTrees_loop_others [OF run u(2)] u(1)
    show "edgeFrom (abGraph s) e \<noteq> nid
          \<and> sharedNodes s1 (edgeFrom (abGraph s) e) = sharedNodes s (edgeFrom (abGraph s) e)"
      by (simp add: buildTrees_body_nodes)
  qed
  from buildTrees_body_again [OF this own]
  have body: "buildTrees_body nid (s\<lparr>sharedNodes := sharedNodes s1\<rparr>) = ?s'\<lparr>sharedNodes := sharedNodes s1\<rparr>" .
  have "buildTrees_loop (nid # ns) (s\<lparr>sharedNodes := sharedNodes s1\<rparr>)
          = buildTrees_loop ns (buildTrees_body nid (s\<lparr>sharedNodes := sharedNodes s1\<rparr>))"
    using inr by simp
  also have "\<dots> = buildTrees_loop ns (?s'\<lparr>sharedNodes := sharedNodes s1\<rparr>)"
    by (simp only: body)
  also have "\<dots> = Inr s1"
    by (rule Cons.IH [OF run d(2) rest'])
  finally show ?case .
qed

text \<open>
  Claim C3, as amended. On a bush whose ordering is consistent with its edges, a second
  \<open>buildTrees\<close> right after the first returns the state that the first returned: the
  same min distance, max distance and predecessor for every node, and the same pending
  list, which is empty exactly when the first call flagged no edge.
\<close>

theorem buildTrees_twice:
  assumes first: "buildTrees s = Inr s1" and topo: "topologicallyConsistent s"
  shows "buildTrees s1 = Inr s1"
proof -
  let ?o = "getOrigin (origin s)"
  let ?s0 = "s\<lparr>sharedNodes := (sharedNodes s)(?o := setDistance 0 (sharedNodes s ?o)), changes := []\<rparr>"
  from topo obtain rest where ord: "topologicalOrdering s = ?o # rest"
    and d: "?o \<notin> set rest" "distinct rest" and src: "sourcesEarlier s rest"
    by (auto simp: topologicallyConsistent_def split: list.splits)
  from first ord have inr: "?o < numVertices (abGraph s)"
    and run: "buildTrees_loop rest ?s0 = Inr s1"
    by (auto simp: buildTrees_def Let_def split: if_splits)
  from buildTrees_loop_frame [OF run] have fr: "frame ?s0 s1" .
  from buildTrees_loop_others [OF run d(1)]
  have o1: "sharedNodes s1 ?o = setDistance 0 (sharedNodes s ?o)" by simp
  have "setDistance 0 (sharedNodes s1 ?o) = sharedNodes s1 ?o"
    unfolding o1 by (simp add: setDistance_def)
  then have nodes: "(sharedNodes s1)(?o := setDistance 0 (sharedNodes s1 ?o)) = sharedNodes s1"
    by (simp add: fun_upd_idem)
  from fr have keep: "origin s1 = origin s" "abGraph s1 = abGraph s"
    "topologicalOrdering s1 = topologicalOrdering s" "bush s1 = bush s" "tempStore s1 = tempStore s"
    by (simp_all add: frame_def)
  have start: "s1\<lparr>sharedNodes := (sharedNodes s1)(?o := setDistance 0 (sharedNodes s1 ?o)), changes := []\<rparr>
                 = ?s0\<lparr>sharedNodes := sharedNodes s1\<rparr>"
    by (rule Bush.equality) (simp_all add: keep nodes)
  have src0: "sourcesEarlier ?s0 rest"
    using src sourcesEarlier_frame [of ?s0 s rest] by simp
  have again: "buildTrees_loop rest (?s0\<lparr>sharedNodes := sharedNodes s1\<rparr>) = Inr s1"
    by (rule buildTrees_loop_again [OF run d(2) src0])
  have "buildTrees s1 = buildTrees_loop rest
          (s1\<lparr>sharedNodes := (sharedNodes s1)(?o := setDistance 0 (sharedNodes s1 ?o)), changes := []\<rparr>)"
    using inr by (simp add: buildTrees_def Let_def keep ord)
  also have "\<dots> = Inr s1"
    unfolding start by (rule again)
  finally show ?thesis .
qed

lemma tieExample_consistent: "topologicallyConsistent tieExample"
  by (simp add: topologicallyConsistent_def tieExample_def example_defs edgeFrom_def)

lemma tieExample_buildTrees: "buildTrees tieExample = Inr tieExample_built"
  by (simp add: run_defs tieExample_def tieExample_built_def example_defs fun_eq_iff)

text \<open>
  Claim C3 as stated fails: the edge of length 0 is flagged by every tree build (its
  source is not strictly nearer than its node), so the pending list holds it after the
  second call as after the first.
\<close>

theorem buildTrees_twice_counterexample:
  "topologicallyConsistent tieExample
   \<and> buildTrees tieExample = Inr tieExample_built
   \<and> buildTrees tieExample_built = Inr tieExample_built
   \<and> changes tieExample_built = [(1, 0)]"
  by (simp add: tieExample_consistent tieExample_buildTrees)
     (simp add: run_defs tieExample_def tieExample_built_def example_defs fun_eq_iff)

theorem buildTrees_twice_witness:
  "topologicallyConsistent tieExample \<and> buildTrees tieExample = Inr tieExample_built
   \<and> buildTrees tieExample_built = Inr tieExample_built"
  using buildTrees_twice [OF tieExample_buildTrees tieExample_consistent]
    tieExample_buildTrees tieExample_consistent
  by simp

text \<open>
  Without the consistency of the ordering the distances of the two calls differ: the
  first call reads the distance that node 2 had before, the second the one that the
  first call gave it.
\<close>

lemma buildTrees_twice_needs_order:
  "\<exists>s1 s2. buildTrees misorderedExample = Inr s1 \<and> buildTrees s1 = Inr s2
     \<and> maxDist (sharedNodes s1 1) = 1 \<and> maxDist (sharedNodes s2 1) = 2"
  by (simp add: run_defs misorderedExample_def example_defs)

subsection \<open>Restructuring\<close>

lemma swapToTail_nth:
  "sorted_wrt (>) js \<Longrightarrow> \<forall>j \<in> set js. j \<le> k \<Longrightarrow> k < length es \<Longrightarrow>
     \<exists>es'. swapToTail js (int k) es = Inr es' \<and> length es' = length es \<and> mset es' = mset es
        \<and> (\<forall>p. k < p \<longrightarrow> es' ! p = es ! p)
        \<and> (\<forall>t < length js. es' ! (k - t) = es ! (js ! t))"
proof (induction js arbitrary: k es)
  case Nil
  then show ?case by simp
next
  case (Cons j js)
  let ?es1 = "es[k := es ! j, j := es ! k]"
  from Cons.prems have jk: "j \<le> k" and k: "k < length es" by simp_all
  have m1: "mset ?es1 = mset es"
    using jk k by (simp add: mset_swap)
  have at_k: "?es1 ! k = es ! j"
    using jk k by (cases "j = k") simp_all
  have step: "swapToTail (j # js) (int k) es = swapToTail js (int k - 1) ?es1"
    using jk k by simp
  show ?case
  proof (cases js)
    case Nil
    with step have "swapToTail (j # js) (int k) es = Inr ?es1" by simp
    moreover have "\<forall>p. k < p \<longrightarrow> ?es1 ! p = es ! p" using jk by simp
    ultimately show ?thesis using at_k m1 Nil by simp
  next
    case (Cons j' js')
    from Cons.prems(1) have lt: "\<forall>x \<in> set js. x < j" and sorted: "sorted_wrt (>) js" by auto
    with Cons jk have k1: "1 \<le> k" by auto
    from lt jk k1 have le: "\<forall>x \<in> set js. x \<le> k - 1" by auto
    from k k1 have k': "k - 1 < length ?es1" by simp
    from Cons.IH [OF sorted le k'] obtain es' where
      run: "swapToTail js (int (k - 1)) ?es1 = Inr es'" and len: "length es' = length ?es1"
      and ms: "mset es' = mset ?es1"
      and above: "\<forall>p. k - 1 < p \<longrightarrow> es' ! p = ?es1 ! p"
      and moved: "\<forall>t < length js. es' ! (k - 1 - t) = ?es1 ! (js ! t)"
      by blast
    from k1 have ik: "int (k - 1) = int k - 1" by simp
    have a: "\<forall>p. k < p \<longrightarrow> es' ! p = es ! p"
      using above jk by (auto simp: nth_list_update)
    have b: "es' ! (k - t) = es ! ((j # js) ! t)" if t: "t < length (j # js)" for t
    proof (cases t)
      case 0
      with above k1 at_k show ?thesis by simp
    next
      case (Suc t')
      with t have t': "t' < length js" by simp
      with lt have "js ! t' < j" by simp
      with jk have "?es1 ! (js ! t') = es ! (js ! t')" by simp
      with moved t' Suc show ?thesis by simp
    qed
    from run ik step len ms m1 a b show ?thesis
      by (intro exI [of _ es']) simp
  qed
qed

lemma swapToTail_tail:
  assumes asc: "sorted_wrt (<) idxs" and inr: "\<forall>i \<in> set idxs. i < length es" and ne: "idxs \<noteq> []"
  shows "\<exists>moved. swapToTail (rev idxs) (int (length es) - 1) es = Inr moved
           \<and> length moved = length es
           \<and> length idxs \<le> length es
           \<and> drop (length es - length idxs) moved = map ((!) es) idxs
           \<and> mset (take (length es - length idxs) moved) + mset (map ((!) es) idxs) = mset es"
proof -
  let ?k = "length es - 1" and ?n = "length idxs"
  from ne inr have pos: "0 < length es" by (cases idxs) auto
  then have ik: "int (length es) - 1 = int ?k" by (simp add: of_nat_diff Suc_leI)
  have d: "distinct idxs" using asc by (simp add: strict_sorted_iff)
  have "card (set idxs) \<le> card {..<length es}"
    using inr by (intro card_mono) auto
  with d have n: "?n \<le> length es" by (simp add: distinct_card)
  have desc: "sorted_wrt (>) (rev idxs)"
    using asc by (simp add: sorted_wrt_rev)
  have le: "\<forall>j \<in> set (rev idxs). j \<le> ?k" using inr by auto
  from pos have kk: "?k < length es" by simp
  from swapToTail_nth [OF desc le kk] obtain moved where
    run: "swapToTail (rev idxs) (int ?k) es = Inr moved" and len: "length moved = length es"
    and ms: "mset moved = mset es"
    and at: "\<forall>t < length (rev idxs). moved ! (?k - t) = es ! (rev idxs ! t)"
    by blast
  have tail: "drop (length es - ?n) moved = map ((!) es) idxs"
  proof (rule nth_equalityI)
    show "length (drop (length es - ?n) moved) = length (map ((!) es) idxs)"
      using len n by simp
  next
    fix t assume "t < length (drop (length es - ?n) moved)"
    with len n have t: "t < ?n" by simp
    then have "?n - 1 - t < length (rev idxs)" by simp
    with at have "moved ! (?k - (?n - 1 - t)) = es ! (rev idxs ! (?n - 1 - t))"
      by blast
    moreover from t n have "?k - (?n - 1 - t) = length es - ?n + t" by arith
    moreover from t have "rev idxs ! (?n - 1 - t) = idxs ! t"
      by (simp add: rev_nth)
    ultimately show "drop (length es - ?n) moved ! t = map ((!) es) idxs ! t"
      using t len n by simp
  qed
  have "mset (take (length es - ?n) moved) + mset (drop (length es - ?n) moved) = mset moved"
    by (metis append_take_drop_id mset_append)
  then have parts: "mset (take (length es - ?n) moved) + mset (map ((!) es) idxs) = mset es"
    by (simp only: tail ms)
  show ?thesis
  proof (intro exI [of _ moved] conjI)
    show "swapToTail (rev idxs) (int (length es) - 1) es = Inr moved"
      unfolding ik by (rule run)
  qed (fact len n tail parts)+
qed

lemma edgeFrom_swapDirection:
  "underlyingEdge e' \<noteq> underlyingEdge e \<Longrightarrow> edgeFrom (swapDirection g e) e' = edgeFrom g e'"
  by (simp add: edgeFrom_def swapDirection_def)

lemma edgeFrom_swapped:
  "underlyingEdge e' \<notin> underlyingEdge ` set es \<Longrightarrow>
     edgeFrom (foldl swapDirection g es) e' = edgeFrom g e'"
  by (induction es arbitrary: g) (simp_all add: edgeFrom_swapDirection)

lemma reverseTail_spec:
  assumes "\<forall>e \<in> set tail. edgeFrom (abGraph s) e < length (bush s) \<and> edgeFrom (abGraph s) e \<noteq> node"
    and "distinct (map underlyingEdge tail)"
  shows "\<exists>s'. reverseTail node tail s = Inr s' \<and> restructureFrame s s'
           \<and> (\<forall>v < length (bush s).
                 bush s' ! v = bush s ! v @ filter (\<lambda>e. edgeFrom (abGraph s) e = v) tail)
           \<and> abGraph s' = foldl swapDirection (abGraph s) tail"
  using assms
proof (induction tail arbitrary: s)
  case Nil
  then show ?case by (simp add: restructureFrame_def)
next
  case (Cons e tail)
  let ?from = "edgeFrom (abGraph s) e"
  let ?s1 = "s\<lparr>abGraph := swapDirection (abGraph s) e,
               bush := (bush s)[?from := bush s ! ?from @ [e]]\<rparr>"
  from Cons.prems(1) have fr: "?from < length (bush s)" "?from \<noteq> node" by simp_all
  from Cons.prems(2) have dist: "distinct (map underlyingEdge tail)"
    and notin: "\<forall>e' \<in> set tail. underlyingEdge e' \<noteq> underlyingEdge e"
    by (fastforce simp: image_iff)+
  have same: "\<forall>e' \<in> set tail. edgeFrom (abGraph ?s1) e' = edgeFrom (abGraph s) e'"
    using notin by (simp add: edgeFrom_swapDirection)
  with Cons.prems(1) have p1: "\<forall>e' \<in> set tail. edgeFrom (abGraph ?s1) e' < length (bush ?s1)
       \<and> edgeFrom (abGraph ?s1) e' \<noteq> node" by simp
  from Cons.IH [OF p1 dist] obtain s' where
    run: "reverseTail node tail ?s1 = Inr s'" and frame: "restructureFrame ?s1 s'"
    and lists: "\<forall>v < length (bush ?s1).
                 bush s' ! v = bush ?s1 ! v @ filter (\<lambda>e'. edgeFrom (abGraph ?s1) e' = v) tail"
    and g: "abGraph s' = foldl swapDirection (abGraph ?s1) tail"
    by blast
  have step: "reverseTail node (e # tail) s = reverseTail node tail ?s1"
    using fr by (simp add: Let_def)
  have flt: "filter (\<lambda>e'. edgeFrom (swapDirection (abGraph s) e) e' = v) tail
               = filter (\<lambda>e'. edgeFrom (abGraph s) e' = v) tail" for v
    using same by (intro filter_cong) auto
  have "bush s' ! v = bush s ! v @ filter (\<lambda>e'. edgeFrom (abGraph s) e' = v) (e # tail)"
    if v: "v < length (bush s)" for v
  proof -
    from v lists have "bush s' ! v = bush ?s1 ! v @ filter (\<lambda>e'. edgeFrom (abGraph ?s1) e' = v) tail"
      by simp
    with v fr(1) show ?thesis
      by (simp add: flt nth_list_update)
  qed
  moreover from frame have "restructureFrame s s'" by (simp add: restructureFrame_def)
  moreover from g have "abGraph s' = foldl swapDirection (abGraph s) (e # tail)" by simp
  ultimately show ?case using run step by simp
qed

lemma groupedByNode_suffix: "groupedByNode (xs @ ys) \<Longrightarrow> groupedByNode ys"
  by (induction xs) simp_all


lemma applyBushEdgeChanges_loop_spec:
  "pendingWellFormed s cs \<Longrightarrow>
     \<exists>s'. applyBushEdgeChanges_loop cs s = Inr s' \<and> restructureFrame s s'
        \<and> (\<forall>v < length (bush s).
              mset (bush s' ! v) + mset (flaggedAt s cs v)
                = mset (bush s ! v) + mset (incomingAt s cs v))
        \<and> abGraph s' = foldl swapDirection (abGraph s) (map (edgeAt s) cs)"
proof (induction "length cs" arbitrary: cs s rule: less_induct)
  case less
  show ?case
  proof (cases cs)
    case Nil
    then show ?thesis
      by (simp add: restructureFrame_def flaggedAt_def incomingAt_def)
  next
    case (Cons c cs0)
    obtain node idx where c: "c = (node, idx)" by (cases c)
    define tw where "tw = takeWhile (\<lambda>c'. fst c' = node) cs0"
    define rest where "rest = dropWhile (\<lambda>c'. fst c' = node) cs0"
    define grpE where "grpE = (node, idx) # tw"
    define grp where "grp = idx # map snd tw"
    define es where "es = bush s ! node"
    define tail where "tail = map (edgeAt s) grpE"
    let ?P = "\<lambda>c c' :: nat \<times> nat. fst c = fst c' \<longrightarrow> snd c < snd c'"
    let ?u = "\<lambda>c. underlyingEdge (edgeAt s c)"
    let ?g = "abGraph s"
    have split: "cs = grpE @ rest"
      by (simp add: Cons c grpE_def tw_def rest_def)
    have allnode: "\<forall>c' \<in> set grpE. fst c' = node"
      by (auto simp: grpE_def tw_def dest: set_takeWhileD)
    from less.prems have wf1: "\<forall>c \<in> set cs. fst c < length (bush s) \<and> snd c < length (bush s ! fst c)
         \<and> edgeFrom ?g (edgeAt s c) < length (bush s) \<and> edgeFrom ?g (edgeAt s c) \<noteq> fst c"
      and wf2: "sorted_wrt ?P cs" and wf3: "groupedByNode cs" and wf4: "distinct (map ?u cs)"
      by (simp_all add: pendingWellFormed_def)
    have node_lt: "node < length (bush s)"
      using wf1 by (simp add: Cons c)
    have grp_map: "grp = map snd grpE" by (simp add: grp_def grpE_def)
    have tail_eq: "tail = map ((!) es) grp"
      unfolding tail_def grp_map using allnode by (simp add: edgeAt_def es_def)
    have asc: "sorted_wrt (<) grp"
    proof -
      from wf2 have "sorted_wrt ?P grpE" by (simp add: split sorted_wrt_append)
      then have "sorted_wrt (\<lambda>c c'. snd c < snd c') grpE"
        by (rule sorted_wrt_mono_rel [rotated]) (use allnode in auto)
      then show ?thesis by (simp add: grp_map sorted_wrt_map)
    qed
    have inr: "\<forall>i \<in> set grp. i < length es"
      using wf1 allnode by (auto simp: grp_map es_def split)
    have ne: "grp \<noteq> []" by (simp add: grp_def)
    from swapToTail_tail [OF asc inr ne] obtain moved where
      runA: "swapToTail (rev grp) (int (length es) - 1) es = Inr moved"
      and lenA: "length moved = length es" and n: "length grp \<le> length es"
      and dropA: "drop (length es - length grp) moved = tail"
      and msA: "mset (take (length es - length grp) moved) + mset tail = mset es"
      unfolding tail_eq by blast
    have l: "nat (int (length es) - int (length grp)) = length es - length grp"
      "\<not> int (length es) - int (length grp) < 0"
      using n by simp_all
    define sa where "sa = s\<lparr>bush := (bush s)[node := moved]\<rparr>"
    have tail_set: "set tail = edgeAt s ` set grpE" by (simp add: tail_def)
    have tail_ok: "edgeFrom ?g e < length (bush s) \<and> edgeFrom ?g e \<noteq> node" if "e \<in> set tail" for e
    proof -
      from that obtain c' where c': "c' \<in> set grpE" "e = edgeAt s c'" by (auto simp: tail_set)
      with allnode have "fst c' = node" by blast
      moreover from c' wf1 split
      have "edgeFrom ?g (edgeAt s c') < length (bush s) \<and> edgeFrom ?g (edgeAt s c') \<noteq> fst c'"
        by auto
      ultimately show ?thesis using c' by simp
    qed
    then have tailp: "\<forall>e \<in> set tail. edgeFrom (abGraph sa) e < length (bush sa) \<and> edgeFrom (abGraph sa) e \<noteq> node"
      by (simp add: sa_def)
    have taild: "distinct (map underlyingEdge tail)"
      using wf4 by (simp add: tail_def split comp_def)
    from reverseTail_spec [OF tailp taild] obtain sb where
      runB: "reverseTail node tail sa = Inr sb" and frameB: "restructureFrame sa sb"
      and listsB: "\<forall>v < length (bush sa).
                 bush sb ! v = bush sa ! v @ filter (\<lambda>e. edgeFrom (abGraph sa) e = v) tail"
      and graphB: "abGraph sb = foldl swapDirection (abGraph sa) tail"
      by blast
    define sc where "sc = sb\<lparr>bush := (bush sb)[node := resize (length grp) (bush sb ! node)]\<rparr>"
    have step: "applyBushEdgeChanges_loop cs s = applyBushEdgeChanges_loop rest sc"
      unfolding Cons c applyBushEdgeChanges_loop.simps Let_def
      unfolding tw_def [symmetric] rest_def [symmetric] grp_def [symmetric] es_def [symmetric]
      by (simp only: node_lt if_True runA sum.case l if_False length_rev
          sa_def [symmetric] dropA runB sc_def [symmetric])
    have frame_c: "restructureFrame s sc"
      using frameB by (simp add: restructureFrame_def sc_def sa_def)
    then have len_c: "length (bush sc) = length (bush s)" by (simp add: restructureFrame_def)
    have len_b: "length (bush sb) = length (bush s)"
      using frameB by (simp add: restructureFrame_def sa_def)
    have no_self: "filter (\<lambda>e. edgeFrom ?g e = node) tail = []"
      using tail_ok by (simp add: filter_empty_conv)
    have sc_node: "bush sc ! node = take (length es - length grp) moved"
      using listsB [rule_format, of node] node_lt len_b no_self
      by (simp add: sc_def sa_def resize_def lenA)
    have sc_other: "bush sc ! v = bush s ! v @ filter (\<lambda>e. edgeFrom ?g e = v) tail"
      if "v < length (bush s)" "v \<noteq> node" for v
      using listsB [rule_format, of v] that by (simp add: sc_def sa_def)
    have sc_graph: "abGraph sc = foldl swapDirection ?g tail"
      using graphB by (simp add: sc_def sa_def)
    have rest_nodes: "\<forall>c' \<in> set rest. fst c' \<noteq> node"
      using wf3 by (auto simp: Cons c rest_def)
    have rest_sub: "set rest \<subseteq> set cs" by (simp add: split)
    have rest_edge: "edgeAt sc c' = edgeAt s c'" if "c' \<in> set rest" for c'
    proof -
      from that rest_nodes have ne: "fst c' \<noteq> node" by blast
      from that rest_sub wf1 have r: "fst c' < length (bush s)" "snd c' < length (bush s ! fst c')"
        by auto
      from sc_other [OF r(1) ne] r(2) show ?thesis
        by (simp add: edgeAt_def nth_append)
    qed
    have rest_from: "edgeFrom (abGraph sc) (edgeAt s c') = edgeFrom ?g (edgeAt s c')"
      if "c' \<in> set rest" for c'
    proof -
      from wf4 have "set (map ?u grpE) \<inter> set (map ?u rest) = {}"
        by (simp add: split)
      with that have "?u c' \<notin> underlyingEdge ` set tail"
        by (auto simp: tail_def)
      then show ?thesis
        unfolding sc_graph by (rule edgeFrom_swapped)
    qed
    have wf_rest: "pendingWellFormed sc rest"
      unfolding pendingWellFormed_def
    proof (intro conjI ballI)
      fix c' assume c': "c' \<in> set rest"
      with rest_nodes have ne: "fst c' \<noteq> node" by blast
      from c' rest_sub wf1 have r: "fst c' < length (bush s)" "snd c' < length (bush s ! fst c')"
        "edgeFrom ?g (edgeAt s c') < length (bush s)" "edgeFrom ?g (edgeAt s c') \<noteq> fst c'"
        by auto
      show "fst c' < length (bush sc)" using r(1) len_c by simp
      show "snd c' < length (bush sc ! fst c')" using sc_other [OF r(1) ne] r(2) by simp
      show "edgeFrom (abGraph sc) (edgeAt sc c') < length (bush sc)"
        using r(3) by (simp add: rest_edge [OF c'] rest_from [OF c'] len_c)
      show "edgeFrom (abGraph sc) (edgeAt sc c') \<noteq> fst c'"
        using r(4) by (simp add: rest_edge [OF c'] rest_from [OF c'])
    next
      show "sorted_wrt ?P rest" using wf2 by (simp add: split sorted_wrt_append)
      show "groupedByNode rest" using wf3 unfolding split by (rule groupedByNode_suffix)
      have eq: "map (\<lambda>c. underlyingEdge (edgeAt sc c)) rest = map ?u rest"
        by (rule map_cong) (simp_all add: rest_edge)
      from wf4 have "distinct (map ?u rest)" by (simp add: split)
      then show "distinct (map (\<lambda>c. underlyingEdge (edgeAt sc c)) rest)"
        by (simp only: eq)
    qed
    have shorter: "length rest < length cs" by (simp add: split grpE_def)
    from less.hyps [OF shorter wf_rest] obtain s' where
      runC: "applyBushEdgeChanges_loop rest sc = Inr s'" and frameC: "restructureFrame sc s'"
      and listsC: "\<forall>v < length (bush sc).
              mset (bush s' ! v) + mset (flaggedAt sc rest v)
                = mset (bush sc ! v) + mset (incomingAt sc rest v)"
      and graphC: "abGraph s' = foldl swapDirection (abGraph sc) (map (edgeAt sc) rest)"
      by blast
    have map_rest: "map (edgeAt sc) rest = map (edgeAt s) rest"
      by (rule map_cong) (simp_all add: rest_edge)
    have fl_rest: "flaggedAt sc rest v = flaggedAt s rest v" for v
      unfolding flaggedAt_def by (rule map_cong) (simp_all add: rest_edge)
    have in_rest: "incomingAt sc rest v = incomingAt s rest v" for v
      unfolding incomingAt_def map_rest
      by (rule filter_cong) (auto simp: rest_from)
    have fl_grp: "flaggedAt s grpE v = (if v = node then tail else [])" for v
      using allnode by (auto simp: flaggedAt_def tail_def filter_empty_conv filter_id_conv)
    have fl: "flaggedAt s cs v = (if v = node then tail else []) @ flaggedAt s rest v" for v
      using fl_grp [of v] by (simp add: flaggedAt_def split)
    have inc: "incomingAt s cs v = filter (\<lambda>e. edgeFrom ?g e = v) tail @ incomingAt s rest v" for v
      by (simp add: incomingAt_def split tail_def)
    have fl_none: "flaggedAt s rest node = []"
      using rest_nodes by (simp add: flaggedAt_def filter_empty_conv)
    have lists: "mset (bush s' ! v) + mset (flaggedAt s cs v)
                   = mset (bush s ! v) + mset (incomingAt s cs v)"
      if v: "v < length (bush s)" for v
    proof (cases "v = node")
      case True
      from listsC [rule_format, of node] node_lt len_c
      have "mset (bush s' ! node) + mset (flaggedAt s rest node)
              = mset (take (length es - length grp) moved) + mset (incomingAt s rest node)"
        by (simp only: fl_rest in_rest sc_node)
      then have "mset (bush s' ! node) + mset tail = mset es + mset (incomingAt s rest node)"
        using msA by (simp add: fl_none ac_simps)
      then show ?thesis
        by (simp add: True fl inc no_self fl_none es_def)
    next
      case False
      from listsC [rule_format, of v] v len_c
      have "mset (bush s' ! v) + mset (flaggedAt s rest v)
              = mset (bush sc ! v) + mset (incomingAt s rest v)"
        by (simp only: fl_rest in_rest)
      then show ?thesis
        by (simp add: False fl inc sc_other [OF v False])
    qed
    have graph: "abGraph s' = foldl swapDirection ?g (map (edgeAt s) cs)"
      unfolding graphC map_rest sc_graph by (simp add: split tail_def)
    have frame: "restructureFrame s s'"
      using frame_c frameC by (simp add: restructureFrame_def)
    from step runC frame lists graph show ?thesis by simp
  qed
qed

lemma swapped_store:
  "distinct (map underlyingEdge es) \<Longrightarrow>
     edgeStore (foldl swapDirection g es) a
       = (if a \<in> underlyingEdge ` set es then swapEnds (edgeStore g a) else edgeStore g a)"
  by (induction es arbitrary: g) (auto simp: swapDirection_def)

lemma swapped_counts:
  "numVertices (foldl swapDirection g es) = numVertices g
   \<and> numEdges (foldl swapDirection g es) = numEdges g"
  by (induction es arbitrary: g) (simp_all add: swapDirection_def)

lemma sorted_valid:
  assumes ord: "sorted (map (\<lambda>i. maxDist (sharedNodes s i)) (topologicalOrdering s))"
    and inc: "distancesIncrease s"
  shows "validOrdering s"
  unfolding validOrdering_def
proof (intro allI impI ballI)
  let ?ord = "topologicalOrdering s" and ?f = "\<lambda>i. maxDist (sharedNodes s i)"
  fix j e assume j: "j < length ?ord" and e: "e \<in> set (bush s ! (?ord ! j))"
  let ?u = "edgeFrom (abGraph s) e"
  from j have "?ord ! j \<in> set ?ord" by simp
  with inc e have u: "?u \<in> set ?ord" and lt: "?f ?u < ?f (?ord ! j)"
    by (auto simp: distancesIncrease_def)
  from u obtain i where i: "i < length ?ord" "?ord ! i = ?u"
    by (auto simp: in_set_conv_nth)
  have "i < j"
  proof (rule ccontr)
    assume "\<not> i < j"
    then have "j \<le> i" by simp
    with ord i(1) have "map ?f ?ord ! j \<le> map ?f ?ord ! i"
      by (intro sorted_nth_mono) simp_all
    with i j lt show False by simp
  qed
  with i show "\<exists>i < j. ?ord ! i = ?u" by blast
qed

text \<open>
  Claim C5, as amended. On a pending list as tree maintenance leaves it, with a scratch
  buffer that holds the ordering, \<open>updateEdges\<close> returns; it returns true exactly when
  the pending list was not empty, and false leaves the bush as it was. Afterwards the
  pending list is empty; for every node, the in-edges after the call together with the
  flagged in-edges of the node are the in-edges before the call together with the
  flagged edges that came from the node (each flagged in-edge has left the list of its
  node and has joined the list of its former source); a network edge has its from-node
  and to-node swapped exactly if a flagged edge lies on it; and the ordering is the old
  ordering stably sorted by max distance. That ordering is a valid topological ordering
  if, after the reversals, every in-edge comes from a node of strictly smaller max
  distance.
\<close>

theorem updateEdges_restructures:
  assumes wf: "pendingWellFormed s (changes s)"
    and buf: "length (topologicalOrdering s) \<le> length (tempStore s)"
    and ids: "\<forall>i \<in> set (topologicalOrdering s). i < numVertices (abGraph s)"
  shows "\<exists>s'. updateEdges s = Inr (changes s \<noteq> [], s')
          \<and> changes s' = []
          \<and> length (bush s') = length (bush s)
          \<and> (\<forall>v < length (bush s).
                mset (bush s' ! v) + mset (flaggedAt s (changes s) v)
                  = mset (bush s ! v) + mset (incomingAt s (changes s) v))
          \<and> (\<forall>a. edgeStore (abGraph s') a
                 = (if a \<in> (\<lambda>c. underlyingEdge (edgeAt s c)) ` set (changes s)
                    then swapEnds (edgeStore (abGraph s) a) else edgeStore (abGraph s) a))
          \<and> sharedNodes s' = sharedNodes s
          \<and> (changes s = [] \<longrightarrow> s' = s)
          \<and> (changes s \<noteq> [] \<longrightarrow>
                topologicalOrdering s'
                  = sort_key (\<lambda>i. maxDist (sharedNodes s i)) (topologicalOrdering s))
          \<and> (changes s \<noteq> [] \<and> distancesIncrease s' \<longrightarrow> validOrdering s')"
proof (cases "changes s = []")
  case True
  then show ?thesis
    by (simp add: updateEdges_def flaggedAt_def incomingAt_def)
next
  case False
  from applyBushEdgeChanges_loop_spec [OF wf] obtain s1 where
    run1: "applyBushEdgeChanges s = Inr s1" and frame1: "restructureFrame s s1"
    and lists: "\<forall>v < length (bush s).
              mset (bush s1 ! v) + mset (flaggedAt s (changes s) v)
                = mset (bush s ! v) + mset (incomingAt s (changes s) v)"
    and graph: "abGraph s1 = foldl swapDirection (abGraph s) (map (edgeAt s) (changes s))"
    unfolding applyBushEdgeChanges_def by blast
  from frame1 have k: "origin s1 = origin s" "sharedNodes s1 = sharedNodes s"
    "tempStore s1 = tempStore s" "topologicalOrdering s1 = topologicalOrdering s"
    "length (bush s1) = length (bush s)"
    by (simp_all add: restructureFrame_def)
  from graph have nv: "numVertices (abGraph s1) = numVertices (abGraph s)"
    by (simp add: swapped_counts)
  let ?f = "\<lambda>i. maxDist (sharedNodes s i)"
  let ?filled = "map (\<lambda>i. (?f i, i)) (topologicalOrdering s)"
  define s2 where "s2 = s1\<lparr>tempStore := stable_sort pairComparator ?filled
                                @ drop (length (topologicalOrdering s)) (tempStore s),
                            topologicalOrdering := map snd (stable_sort pairComparator ?filled)\<rparr>"
  have run2: "topologicalSort s1 = Inr s2"
    using buf ids by (simp add: topologicalSort_def Let_def k nv s2_def)
  have ord2: "topologicalOrdering s2 = sort_key ?f (topologicalOrdering s)"
    by (simp add: s2_def map_snd_sort_key_fst)
  let ?s' = "s2\<lparr>changes := []\<rparr>"
  have res: "updateEdges s = Inr (changes s \<noteq> [], ?s')"
    using False run1 run2 by (simp add: updateEdges_def)
  from wf have "distinct (map underlyingEdge (map (edgeAt s) (changes s)))"
    by (simp add: pendingWellFormed_def comp_def)
  from swapped_store [OF this, of "abGraph s"] graph
  have store: "\<forall>a. edgeStore (abGraph ?s') a
                 = (if a \<in> (\<lambda>c. underlyingEdge (edgeAt s c)) ` set (changes s)
                    then swapEnds (edgeStore (abGraph s) a) else edgeStore (abGraph s) a)"
    by (simp add: s2_def image_image)
  have valid: "validOrdering ?s'" if inc: "distancesIncrease ?s'"
  proof (rule sorted_valid [OF _ inc])
    show "sorted (map (\<lambda>i. maxDist (sharedNodes ?s' i)) (topologicalOrdering ?s'))"
      by (simp add: ord2) (simp add: s2_def k)
  qed
  show ?thesis
  proof (intro exI [of _ ?s'] conjI)
    show "updateEdges s = Inr (changes s \<noteq> [], ?s')" by (rule res)
    show "changes ?s' = []" by simp
    show "length (bush ?s') = length (bush s)" by (simp add: s2_def k)
    show "\<forall>v < length (bush s).
                mset (bush ?s' ! v) + mset (flaggedAt s (changes s) v)
                  = mset (bush s ! v) + mset (incomingAt s (changes s) v)"
      using lists by (simp add: s2_def)
    show "\<forall>a. edgeStore (abGraph ?s') a
                 = (if a \<in> (\<lambda>c. underlyingEdge (edgeAt s c)) ` set (changes s)
                    then swapEnds (edgeStore (abGraph s) a) else edgeStore (abGraph s) a)"
      by (rule store)
    show "sharedNodes ?s' = sharedNodes s" by (simp add: s2_def k)
    show "changes s = [] \<longrightarrow> ?s' = s" using False by simp
    show "changes s \<noteq> [] \<longrightarrow>
                topologicalOrdering ?s'
                  = sort_key (\<lambda>i. maxDist (sharedNodes s i)) (topologicalOrdering s)"
      using ord2 by simp
    show "changes s \<noteq> [] \<and> distancesIncrease ?s' \<longrightarrow> validOrdering ?s'"
      using valid by blast
  qed
qed

lemmas restructure_defs = updateEdges_def applyBushEdgeChanges_def topologicalSort_def
  swapDirection_def swapEnds_def resize_def stable_sort_pairComparator edgeFrom_def Let_def

lemma tie_wf: "pendingWellFormed tieExample_built (changes tieExample_built)"
  by (simp add: pendingWellFormed_def edgeAt_def edgeFrom_def tieExample_built_def tieExample_def example_defs)

lemma tie_run: "updateEdges tieExample_built = Inr (True, tieExample_turned)"
  by (simp add: restructure_defs tieExample_turned_def tieExample_built_def tieExample_def
      example_defs fun_eq_iff)

text \<open>
  Claim C5 as stated fails: the flagged edge of length 0 joins two nodes at the same max
  distance; the stable sort leaves the origin before node 1, and the reversed edge now
  enters the origin from node 1, so the ordering is not a valid topological ordering.
\<close>

theorem updateEdges_ordering_counterexample:
  "pendingWellFormed tieExample_built (changes tieExample_built)
   \<and> updateEdges tieExample_built = Inr (True, tieExample_turned)
   \<and> \<not> validOrdering tieExample_turned"
proof -
  have "\<not> validOrdering tieExample_turned"
  proof
    assume "validOrdering tieExample_turned"
    from this [unfolded validOrdering_def, rule_format, of 0 "newBushEdge 0"]
    show False
      by (simp add: tieExample_turned_def tieExample_built_def tieExample_def example_defs)
  qed
  with tie_wf tie_run show ?thesis by simp
qed

lemma turn_wf: "pendingWellFormed turnExample (changes turnExample)"
  by (simp add: pendingWellFormed_def edgeAt_def edgeFrom_def turnExample_def example_defs)

lemma turn_run: "updateEdges turnExample = Inr (True, turnExample_turned)"
  by (simp add: restructure_defs turnExample_turned_def turnExample_def example_defs fun_eq_iff)

lemma turn_inc: "distancesIncrease turnExample_turned"
  by (simp add: distancesIncrease_def edgeFrom_def turnExample_turned_def turnExample_def example_defs)

theorem updateEdges_restructures_witness:
  "pendingWellFormed turnExample (changes turnExample)
   \<and> updateEdges turnExample = Inr (True, turnExample_turned)
   \<and> bush turnExample_turned = [[], [newBushEdge 0, newBushEdge 1], [newBushEdge 2]]
   \<and> topologicalOrdering turnExample_turned = [0, 2, 1]
   \<and> validOrdering turnExample_turned"
proof -
  have buf: "length (topologicalOrdering turnExample) \<le> length (tempStore turnExample)"
    and ids: "\<forall>i \<in> set (topologicalOrdering turnExample). i < numVertices (abGraph turnExample)"
    and ne: "changes turnExample \<noteq> []"
    by (simp_all add: turnExample_def example_defs)
  from updateEdges_restructures [OF turn_wf buf ids] turn_run ne turn_inc
  have "validOrdering turnExample_turned" by auto
  with turn_wf turn_run show ?thesis
    by (simp add: turnExample_turned_def)
qed

subsection \<open>The pending list that a tree build leaves\<close>

lemma updateEdges3_shape:
  "\<exists>ks. updateEdges3 g nodes es maxD nid k = map (Pair nid) ks
        \<and> sorted_wrt (<) ks \<and> set ks \<subseteq> {k..<k + length es}"
proof (induction es arbitrary: k)
  case Nil
  then show ?case by simp
next
  case (Cons e es)
  from Cons.IH [of "Suc k"] obtain ks where
    ks: "updateEdges3 g nodes es maxD nid (Suc k) = map (Pair nid) ks"
    "sorted_wrt (<) ks" "set ks \<subseteq> {Suc k..<Suc k + length es}"
    by blast
  show ?case
  proof (cases "maxDist (nodes (edgeFrom g e)) < maxD")
    case True
    with ks show ?thesis
      by (intro exI [of _ ks]) auto
  next
    case False
    with ks show ?thesis
      by (intro exI [of _ "k # ks"]) auto
  qed
qed

lemma buildTrees_loop_pending:
  "buildTrees_loop ns s = Inr s' \<Longrightarrow>
     \<exists>kss. length kss = length ns
        \<and> changes s' = changes s @ pendingOf (zip ns kss)
        \<and> (\<forall>(n, ks) \<in> set (zip ns kss).
              n < length (bush s) \<and> sorted_wrt (<) ks \<and> set ks \<subseteq> {..<length (bush s ! n)})"
proof (induction ns arbitrary: s)
  case Nil
  then show ?case by (simp add: pendingOf_def)
next
  case (Cons nid ns)
  let ?s1 = "buildTrees_body nid s"
  from Cons.prems have inr: "nid < length (bush s)" and run: "buildTrees_loop ns ?s1 = Inr s'"
    by (auto split: if_splits)
  have b1: "bush ?s1 = bush s" by (simp add: buildTrees_body_def Let_def)
  obtain ks where ks: "changes ?s1 = changes s @ map (Pair nid) ks"
    "sorted_wrt (<) ks" "set ks \<subseteq> {0..<0 + length (bush s ! nid)}"
    using updateEdges3_shape [of "abGraph s" _ "bush s ! nid" _ nid 0]
    unfolding buildTrees_body_def Let_def by force
  from Cons.IH [OF run] obtain kss where
    kss: "length kss = length ns" "changes s' = changes ?s1 @ pendingOf (zip ns kss)"
    "\<forall>(n, ks) \<in> set (zip ns kss).
        n < length (bush ?s1) \<and> sorted_wrt (<) ks \<and> set ks \<subseteq> {..<length (bush ?s1 ! n)}"
    by blast
  show ?case
  proof (intro exI [of _ "ks # kss"] conjI)
    show "length (ks # kss) = length (nid # ns)" using kss(1) by simp
    show "changes s' = changes s @ pendingOf (zip (nid # ns) (ks # kss))"
      using kss(2) ks(1) by (simp add: pendingOf_def)
    show "\<forall>(n, ks) \<in> set (zip (nid # ns) (ks # kss)).
              n < length (bush s) \<and> sorted_wrt (<) ks \<and> set ks \<subseteq> {..<length (bush s ! n)}"
      using kss(3) ks(2,3) inr b1 by auto
  qed
qed

lemma pendingOf_Nil: "pendingOf [] = []"
  by (simp add: pendingOf_def)

lemma pendingOf_Cons:
  "pendingOf ((n, ks) # groups) = map (Pair n) ks @ pendingOf groups"
  by (simp add: pendingOf_def)

lemma set_pendingOf:
  "(n, k) \<in> set (pendingOf groups) \<longleftrightarrow> (\<exists>ks. (n, ks) \<in> set groups \<and> k \<in> set ks)"
proof (induction groups)
  case Nil
  then show ?case by (simp add: pendingOf_Nil)
next
  case (Cons g groups)
  obtain m ks where g: "g = (m, ks)" by (cases g)
  show ?case unfolding g pendingOf_Cons using Cons.IH by auto
qed

lemma fst_pendingOf: "fst ` set (pendingOf groups) \<subseteq> fst ` set groups"
proof
  fix n assume "n \<in> fst ` set (pendingOf groups)"
  then obtain k where "(n, k) \<in> set (pendingOf groups)" by auto
  then obtain ks where "(n, ks) \<in> set groups" unfolding set_pendingOf by blast
  then show "n \<in> fst ` set groups" by force
qed

lemma grouped_run:
  "n \<notin> fst ` set rest \<Longrightarrow> groupedByNode rest \<Longrightarrow> groupedByNode (map (Pair n) ks @ rest)"
proof (induction ks)
  case Nil
  then show ?case by simp
next
  case (Cons k ks)
  have "dropWhile (\<lambda>c'. fst c' = n) (map (Pair n) ks @ rest) = dropWhile (\<lambda>c'. fst c' = n) rest"
    by (induction ks) simp_all
  moreover have "set (dropWhile (\<lambda>c'. fst c' = n) rest) \<subseteq> set rest"
    by (rule set_dropWhileD [THEN subsetI])
  ultimately show ?case using Cons by auto
qed

lemma grouped_pendingOf:
  "distinct (map fst groups) \<Longrightarrow> groupedByNode (pendingOf groups)"
proof (induction groups)
  case Nil
  then show ?case by (simp add: pendingOf_def)
next
  case (Cons g groups)
  obtain n ks where g: "g = (n, ks)" by (cases g)
  from Cons.prems g have "n \<notin> fst ` set groups" "distinct (map fst groups)" by auto
  with fst_pendingOf [of groups] Cons.IH have "n \<notin> fst ` set (pendingOf groups)"
    "groupedByNode (pendingOf groups)" by auto
  then show ?case unfolding g pendingOf_Cons by (rule grouped_run)
qed

lemma sorted_pendingOf:
  "distinct (map fst groups) \<Longrightarrow> \<forall>(n, ks) \<in> set groups. sorted_wrt (<) ks \<Longrightarrow>
     sorted_wrt (\<lambda>c c'. fst c = fst c' \<longrightarrow> snd c < snd c') (pendingOf groups)"
proof (induction groups)
  case Nil
  then show ?case by (simp add: pendingOf_def)
next
  case (Cons g groups)
  obtain n ks where g: "g = (n, ks)" by (cases g)
  from Cons.prems g have n: "n \<notin> fst ` set groups" and d: "distinct (map fst groups)"
    and ks: "sorted_wrt (<) ks" and rest: "\<forall>(n, ks) \<in> set groups. sorted_wrt (<) ks"
    by auto
  from n fst_pendingOf [of groups] have other: "\<forall>c' \<in> set (pendingOf groups). fst c' \<noteq> n" by auto
  from ks have "sorted_wrt (\<lambda>c c'. fst c = fst c' \<longrightarrow> snd c < snd c') (map (Pair n) ks)"
    by (simp add: sorted_wrt_map)
  with Cons.IH [OF d rest] other show ?case
    unfolding g pendingOf_Cons by (auto simp: sorted_wrt_append)
qed

lemma distinct_pendingOf:
  "distinct (map fst groups) \<Longrightarrow> \<forall>(n, ks) \<in> set groups. sorted_wrt (<) ks \<Longrightarrow>
     distinct (pendingOf groups)"
proof (induction groups)
  case Nil
  then show ?case by (simp add: pendingOf_def)
next
  case (Cons g groups)
  obtain n ks where g: "g = (n, ks)" by (cases g)
  from Cons.prems g have n: "n \<notin> fst ` set groups" and d: "distinct (map fst groups)"
    and ks: "sorted_wrt (<) ks" and rest: "\<forall>(n, ks) \<in> set groups. sorted_wrt (<) ks"
    by auto
  from n fst_pendingOf [of groups] have other: "\<forall>c' \<in> set (pendingOf groups). fst c' \<noteq> n" by auto
  from ks have "distinct ks" by (simp add: strict_sorted_iff)
  then have "distinct (map (Pair n) ks)" by (simp add: distinct_map inj_on_def)
  with Cons.IH [OF d rest] other show ?case
    unfolding g pendingOf_Cons by auto
qed

lemma underlying_inj:
  assumes d: "distinct (map f (concat xss))"
    and n: "n < length xss" "k < length (xss ! n)"
    and m: "m < length xss" "j < length (xss ! m)"
    and eq: "f (xss ! n ! k) = f (xss ! m ! j)"
  shows "n = m \<and> k = j"
  using d n m eq
proof (induction xss arbitrary: n m)
  case Nil
  then show ?case by simp
next
  case (Cons xs xss)
  from Cons.prems(1) have dx: "distinct (map f xs)" and dr: "distinct (map f (concat xss))"
    and disj: "f ` set xs \<inter> f ` set (concat xss) = {}"
    by auto
  have mem: "f (xss ! i ! l) \<in> f ` set (concat xss)" if "i < length xss" "l < length (xss ! i)" for i l
  proof -
    from that have "xss ! i ! l \<in> set (xss ! i)" "xss ! i \<in> set xss" by simp_all
    then have "xss ! i ! l \<in> set (concat xss)" by auto
    then show ?thesis by (rule imageI)
  qed
  have head: "f (xs ! l) \<in> f ` set xs" if "l < length xs" for l
    using that by simp
  show ?case
  proof (cases n)
    case n0: 0
    show ?thesis
    proof (cases m)
      case 0
      from Cons.prems n0 0 have kj: "k < length xs" "j < length xs" "f (xs ! k) = f (xs ! j)"
        by simp_all
      then have same: "map f xs ! k = map f xs ! j" by simp
      from kj have "k < length (map f xs)" "j < length (map f xs)" by simp_all
      from nth_eq_iff_index_eq [OF dx this] same have "k = j" by blast
      with n0 0 show ?thesis by simp
    next
      case (Suc m')
      from Cons.prems n0 Suc have r: "k < length xs" "m' < length xss" "j < length (xss ! m')"
        "f (xs ! k) = f (xss ! m' ! j)" by simp_all
      have "f (xs ! k) \<in> f ` set xs" by (rule head [OF r(1)])
      moreover have "f (xs ! k) \<in> f ` set (concat xss)"
        unfolding r(4) by (rule mem [OF r(2,3)])
      ultimately show ?thesis using disj by blast
    qed
  next
    case nS: (Suc n')
    show ?thesis
    proof (cases m)
      case 0
      from Cons.prems nS 0 have r: "j < length xs" "n' < length xss" "k < length (xss ! n')"
        "f (xs ! j) = f (xss ! n' ! k)" by simp_all
      have "f (xs ! j) \<in> f ` set xs" by (rule head [OF r(1)])
      moreover have "f (xs ! j) \<in> f ` set (concat xss)"
        unfolding r(4) by (rule mem [OF r(2,3)])
      ultimately show ?thesis using disj by blast
    next
      case (Suc m')
      from Cons.prems nS Suc have "n' < length xss" "k < length (xss ! n')"
        "m' < length xss" "j < length (xss ! m')" "f (xss ! n' ! k) = f (xss ! m' ! j)"
        by simp_all
      from Cons.IH [OF dr this] nS Suc show ?thesis by simp
    qed
  qed
qed


text \<open>
  The pending list that \<open>buildTrees\<close> leaves on such a bush, with an ordering that names
  no node twice, is well formed in the sense of \<^const>\<open>pendingWellFormed\<close>.
\<close>

lemma buildTrees_pendingWellFormed:
  assumes run: "buildTrees s = Inr s'" and wf: "bushWellFormed s"
    and d: "distinct (drop 1 (topologicalOrdering s))"
  shows "pendingWellFormed s' (changes s')"
proof -
  let ?ns = "drop 1 (topologicalOrdering s)"
  let ?o = "getOrigin (origin s)"
  let ?s0 = "s\<lparr>sharedNodes := (sharedNodes s)(?o := setDistance 0 (sharedNodes s ?o)), changes := []\<rparr>"
  from run have loop: "buildTrees_loop ?ns ?s0 = Inr s'"
    by (auto simp: buildTrees_def Let_def split: if_splits)
  from buildTrees_frame [OF run] have b: "bush s' = bush s" and g: "abGraph s' = abGraph s"
    by (simp_all add: frame_def)
  from buildTrees_loop_pending [OF loop] obtain kss where
    len: "length kss = length ?ns" and ch: "changes s' = pendingOf (zip ?ns kss)"
    and grp: "\<forall>(n, ks) \<in> set (zip ?ns kss).
              n < length (bush s) \<and> sorted_wrt (<) ks \<and> set ks \<subseteq> {..<length (bush s ! n)}"
    by auto
  let ?groups = "zip ?ns kss"
  from len have fsts: "map fst ?groups = ?ns" by simp
  with d have dg: "distinct (map fst ?groups)" by simp
  from grp have sorted: "\<forall>(n, ks) \<in> set ?groups. sorted_wrt (<) ks" by auto
  have slot: "n < length (bush s) \<and> k < length (bush s ! n)"
    if "(n, k) \<in> set (pendingOf ?groups)" for n k
  proof -
    from that obtain ks where "(n, ks) \<in> set ?groups" "k \<in> set ks"
      unfolding set_pendingOf by blast
    with grp show ?thesis by auto
  qed
  have entries: "fst c < length (bush s') \<and> snd c < length (bush s' ! fst c)
         \<and> edgeFrom (abGraph s') (edgeAt s' c) < length (bush s')
         \<and> edgeFrom (abGraph s') (edgeAt s' c) \<noteq> fst c"
    if "c \<in> set (pendingOf ?groups)" for c
  proof -
    obtain n k where c: "c = (n, k)" by (cases c)
    from slot that c have nk: "n < length (bush s)" "k < length (bush s ! n)" by auto
    then have "bush s ! n ! k \<in> set (bush s ! n)" by simp
    with wf nk(1) have "edgeFrom (abGraph s) (bush s ! n ! k) < length (bush s)
        \<and> edgeFrom (abGraph s) (bush s ! n ! k) \<noteq> n"
      by (auto simp: bushWellFormed_def)
    with nk show ?thesis by (simp add: c b g edgeAt_def)
  qed
  have inj: "inj_on (\<lambda>c. underlyingEdge (edgeAt s' c)) (set (pendingOf ?groups))"
  proof (rule inj_onI)
    fix c c' assume c: "c \<in> set (pendingOf ?groups)" and c': "c' \<in> set (pendingOf ?groups)"
      and eq: "underlyingEdge (edgeAt s' c) = underlyingEdge (edgeAt s' c')"
    obtain n k where cn: "c = (n, k)" by (cases c)
    obtain m j where cm: "c' = (m, j)" by (cases c')
    from slot c cn have nk: "n < length (bush s)" "k < length (bush s ! n)" by auto
    from slot c' cm have mj: "m < length (bush s)" "j < length (bush s ! m)" by auto
    from eq have "underlyingEdge (bush s ! n ! k) = underlyingEdge (bush s ! m ! j)"
      by (simp add: cn cm b edgeAt_def)
    from underlying_inj [OF _ nk mj this] wf show "c = c'"
      by (simp add: cn cm bushWellFormed_def)
  qed
  show ?thesis
    unfolding pendingWellFormed_def ch
  proof (intro conjI ballI)
    show "sorted_wrt (\<lambda>c c'. fst c = fst c' \<longrightarrow> snd c < snd c') (pendingOf ?groups)"
      by (rule sorted_pendingOf [OF dg sorted])
    show "groupedByNode (pendingOf ?groups)"
      by (rule grouped_pendingOf [OF dg])
    show "distinct (map (\<lambda>c. underlyingEdge (edgeAt s' c)) (pendingOf ?groups))"
      using inj distinct_pendingOf [OF dg sorted] by (simp add: distinct_map)
  qed (use entries in blast)+
qed

end
